theory Spec2Isabelle
  imports
    Main
    "HOL-Library.Word"
    "HOL-Library.Char_ord"
    "HOL-Library.List_Lexorder"
begin

section \<open>The Pwned Passwords client of supabase/hibp\<close>

text \<open>
  A shallow embedding of the Go package \<^verbatim>\<open>hibp\<close>: the response buffer with its
  \<^verbatim>\<open>Parse\<close> and \<^verbatim>\<open>Lookup\<close> methods, the reference-counted box of \<^verbatim>\<open>utils.go\<close>, and
  the client's \<^verbatim>\<open>doRequest\<close>, \<^verbatim>\<open>doCheck\<close> and \<^verbatim>\<open>Check\<close>. A Go byte slice is a list of
  characters (a \<^typ>\<open>char\<close> is one byte).
\<close>

type_synonym bytes = string

subsection \<open>Byte-slice primitives of the Go standard library\<close>

text \<open>
  \<^verbatim>\<open>bytes.Compare\<close>: lexicographic comparison of the unsigned byte values, with result
  \<open>-1\<close>, \<open>0\<close> or \<open>1\<close>.
\<close>

fun bytes_Compare :: "bytes \<Rightarrow> bytes \<Rightarrow> int" where
  "bytes_Compare [] [] = 0"
| "bytes_Compare [] (y # ys) = - 1"
| "bytes_Compare (x # xs) [] = 1"
| "bytes_Compare (x # xs) (y # ys) =
     (if (of_char x :: nat) < of_char y then - 1
      else if (of_char y :: nat) < of_char x then 1
      else bytes_Compare xs ys)"

text \<open>\<^verbatim>\<open>bytes.Equal\<close>: same length and same bytes.\<close>

definition bytes_Equal :: "bytes \<Rightarrow> bytes \<Rightarrow> bool" where
  "bytes_Equal a b = (a = b)"

text \<open>
  \<^verbatim>\<open>(*bytes.Buffer).ReadBytes(delim)\<close> on the unread bytes \<open>b\<close>: the line up to and
  including the first \<open>delim\<close>, the bytes left in the buffer, and whether the error is
  non-nil (\<^verbatim>\<open>io.EOF\<close>: no delimiter was found and the rest of the buffer is returned).
\<close>

definition ReadBytes :: "char \<Rightarrow> bytes \<Rightarrow> bytes \<times> bytes \<times> bool" where
  "ReadBytes delim b =
     (case dropWhile (\<lambda>c. c \<noteq> delim) b of
        [] \<Rightarrow> (b, [], True)
      | d # rest \<Rightarrow> (takeWhile (\<lambda>c. c \<noteq> delim) b @ [d], rest, False))"

text \<open>
  \<^verbatim>\<open>sort.Search(n, f)\<close>: binary search for the least index in \<open>[0, n)\<close> at which \<open>f\<close>
  holds, \<open>n\<close> when there is none. The loop of the standard library is
  \<^verbatim>\<open>for i < j { h := int(uint(i+j) >> 1); if !f(h) { i = h + 1 } else { j = h } }\<close>.
\<close>

function sort_Search_loop :: "(nat \<Rightarrow> bool) \<Rightarrow> nat \<Rightarrow> nat \<Rightarrow> nat" where
  "sort_Search_loop f i j =
     (if i < j then
        (let h = (i + j) div 2 in
         if \<not> f h then sort_Search_loop f (h + 1) j else sort_Search_loop f i h)
      else i)"
  by pat_completeness auto
termination
  by (relation "measure (\<lambda>(f, i, j). j - i)") auto

definition sort_Search :: "nat \<Rightarrow> (nat \<Rightarrow> bool) \<Rightarrow> nat" where
  "sort_Search n f = sort_Search_loop f 0 n"

subsection \<open>The line pattern\<close>

text \<open>
  \<^verbatim>\<open>pwnedLinePattern = regexp.MustCompile(`^([0-9A-F]{35}):([0-9]+)\s*$`)\<close>.
  Go's \<^verbatim>\<open>\s\<close> is \<^verbatim>\<open>[\t\n\f\r ]\<close>, and without the \<^verbatim>\<open>m\<close> flag \<^verbatim>\<open>^\<close> and \<^verbatim>\<open>$\<close> match only at
  the two ends of the text. The three character classes and the colon are pairwise
  disjoint, so the text matches in at most one way: 35 characters of the first class, a
  colon, the longest run of digits (not empty), and white space up to the end.
  \<^verbatim>\<open>FindSubmatch\<close> returns the two groups, or nil (\<open>None\<close>).
\<close>

definition is_hex_upper :: "char \<Rightarrow> bool" where
  "is_hex_upper c = (c \<in> set ''0123456789ABCDEF'')"

definition is_digit :: "char \<Rightarrow> bool" where
  "is_digit c = (c \<in> set ''0123456789'')"

definition is_space :: "char \<Rightarrow> bool" where
  "is_space c = (c \<in> {CHR 0x09, CHR 0x0A, CHR 0x0C, CHR 0x0D, CHR '' ''})"

definition FindSubmatch :: "bytes \<Rightarrow> (bytes \<times> bytes) option" where
  "FindSubmatch line =
     (let suffix = take 35 line; r1 = drop 35 line in
      if length suffix = 35 \<and> list_all is_hex_upper suffix then
        (case r1 of
           [] \<Rightarrow> None
         | c # r2 \<Rightarrow>
             if c = CHR '':'' then
               (let occurrence = takeWhile is_digit r2; r3 = dropWhile is_digit r2 in
                if occurrence \<noteq> [] \<and> list_all is_space r3
                then Some (suffix, occurrence) else None)
             else None)
      else None)"

subsection \<open>pwnedResultBuffer\<close>

text \<open>
  \<^verbatim>\<open>Buffer\<close> holds the unread bytes of the \<^verbatim>\<open>*bytes.Buffer\<close>.
\<close>

record pwnedResultBuffer =
  Buffer :: bytes
  SuffixesSorted :: bool
  Suffixes :: "bytes list"

text \<open>
  The body of the loop of \<^verbatim>\<open>Parse\<close> for a line that matches, from
  \<^verbatim>\<open>suffix := matches[1]\<close> on: the sortedness check against the last kept suffix, and the
  append unless the occurrence count is the single digit \<^verbatim>\<open>0\<close>.
\<close>

definition Parse_match :: "bytes \<times> bytes \<Rightarrow> pwnedResultBuffer \<Rightarrow> pwnedResultBuffer" where
  "Parse_match matches buf =
     (let suffix = fst matches;
          occurrence = snd matches;
          buf1 =
            (if SuffixesSorted buf \<and> length (Suffixes buf) > 0 then
               (if bytes_Compare (Suffixes buf ! (length (Suffixes buf) - 1)) suffix \<ge> 0
                then buf\<lparr>SuffixesSorted := False\<rparr> else buf)
             else buf)
      in
      if length occurrence > 1 \<or> (length occurrence = 1 \<and> occurrence ! 0 \<noteq> CHR ''0'')
      then buf1\<lparr>Suffixes := Suffixes buf1 @ [suffix]\<rparr>
      else buf1)"

text \<open>The body of the loop once the line has been read: lines that do not match are skipped.\<close>

definition Parse_line :: "bytes \<Rightarrow> pwnedResultBuffer \<Rightarrow> pwnedResultBuffer" where
  "Parse_line line buf =
     (case FindSubmatch line of
        None \<Rightarrow> buf
      | Some matches \<Rightarrow> Parse_match matches buf)"

text \<open>The loop \<^verbatim>\<open>for running { ... }\<close>: it ends with the line that hits \<^verbatim>\<open>io.EOF\<close>.\<close>

function Parse_loop :: "pwnedResultBuffer \<Rightarrow> pwnedResultBuffer" where
  "Parse_loop buf =
     (case ReadBytes (CHR 0x0A) (Buffer buf) of
        (line, rest, err) \<Rightarrow>
          (let buf' = Parse_line line (buf\<lparr>Buffer := rest\<rparr>) in
           if err then buf' else Parse_loop buf'))"
  by pat_completeness auto
termination
proof (relation "measure (\<lambda>buf. length (Buffer buf))", goal_cases)
  case 1
  show ?case by simp
next
  case (2 buf line y rest err buf')
  have keep: "Buffer (Parse_line l b) = Buffer b" for l b
    by (simp add: Parse_line_def Parse_match_def Let_def split: option.splits)
  have "length (dropWhile (\<lambda>c. c \<noteq> CHR 0x0A) (Buffer buf)) \<le> length (Buffer buf)"
    by (rule length_dropWhile_le)
  with 2 have "length rest < length (Buffer buf)"
    by (auto simp: ReadBytes_def split: list.splits)
  with 2 keep show ?case
    by simp
qed

text \<open>
  \<^verbatim>\<open>Parse\<close>: the flag is set, the loop runs, and the deferred \<^verbatim>\<open>buf.Buffer.Reset()\<close>
  empties the buffer.
\<close>

definition Parse :: "pwnedResultBuffer \<Rightarrow> pwnedResultBuffer" where
  "Parse buf = (Parse_loop (buf\<lparr>SuffixesSorted := True\<rparr>))\<lparr>Buffer := []\<rparr>"

text \<open>The linear scan of \<^verbatim>\<open>Lookup\<close>, \<^verbatim>\<open>for _, s := range buf.Suffixes\<close>.\<close>

fun Lookup_scan :: "bytes list \<Rightarrow> bytes \<Rightarrow> bool" where
  "Lookup_scan [] suffix = False"
| "Lookup_scan (s # ss) suffix = (if bytes_Equal s suffix then True else Lookup_scan ss suffix)"

definition Lookup :: "pwnedResultBuffer \<Rightarrow> bytes \<Rightarrow> bool" where
  "Lookup buf suffix =
     (if \<not> SuffixesSorted buf then Lookup_scan (Suffixes buf) suffix
      else
        (let index = sort_Search (length (Suffixes buf))
                       (\<lambda>i. bytes_Compare (Suffixes buf ! i) suffix \<ge> 0)
         in
         if index < length (Suffixes buf) then bytes_Equal suffix (Suffixes buf ! index)
         else False))"

text \<open>A buffer as \<^verbatim>\<open>doCheck\<close> and the tests create it, holding a response body.\<close>

definition new_buffer :: "bytes \<Rightarrow> pwnedResultBuffer" where
  "new_buffer body = \<lparr>Buffer = body, SuffixesSorted = False, Suffixes = []\<rparr>"

subsection \<open>Response bodies, as the specification describes them\<close>

text \<open>
  The definitions of this subsection are not code of the package: they describe a
  response body independently of \<^verbatim>\<open>Parse\<close>, so that the claims about it can be stated.
  \<open>body_lines\<close> cuts a body after every line feed; the last line, which may be empty, is
  the one that ends with the body. \<open>body_entries\<close> are the suffix and the occurrence
  count of the lines that match the pattern, in the order of the body.
\<close>

fun body_lines_from :: "bytes \<Rightarrow> bytes \<Rightarrow> bytes list" where
  "body_lines_from cur [] = [cur]"
| "body_lines_from cur (c # cs) =
     (if c = CHR 0x0A then (cur @ [c]) # body_lines_from [] cs
      else body_lines_from (cur @ [c]) cs)"

definition body_lines :: "bytes \<Rightarrow> bytes list" where
  "body_lines body = body_lines_from [] body"

definition body_entries :: "bytes \<Rightarrow> (bytes \<times> bytes) list" where
  "body_entries body = List.map_filter FindSubmatch (body_lines body)"

text \<open>The number that a decimal occurrence count denotes.\<close>

definition count_value :: "bytes \<Rightarrow> nat" where
  "count_value occurrence =
     foldl (\<lambda>n c. 10 * n + (of_char c - of_char (CHR ''0''))) 0 occurrence"

text \<open>
  A well-formed entry is a suffix of 35 upper-case hexadecimal characters with a decimal
  count. A well-formed line is such an entry, written with a colon between the two, and
  white space after it, of which only the last character may be a line feed; it is
  terminated when it ends with a line feed. A body made of well-formed lines is their
  concatenation, every line but the last one terminated: the lines may end with a line
  feed or with a carriage return and a line feed, and the last line may have no
  terminator.
\<close>

definition well_formed_entry :: "bytes \<times> bytes \<Rightarrow> bool" where
  "well_formed_entry e =
     (length (fst e) = 35 \<and> list_all is_hex_upper (fst e) \<and>
      snd e \<noteq> [] \<and> list_all is_digit (snd e))"

definition well_formed_line :: "(bytes \<times> bytes) \<times> bytes \<Rightarrow> bool" where
  "well_formed_line l =
     (well_formed_entry (fst l) \<and> list_all is_space (snd l) \<and>
      CHR 0x0A \<notin> set (butlast (snd l)))"

definition terminated :: "(bytes \<times> bytes) \<times> bytes \<Rightarrow> bool" where
  "terminated l = (snd l \<noteq> [] \<and> last (snd l) = CHR 0x0A)"

definition render_line :: "(bytes \<times> bytes) \<times> bytes \<Rightarrow> bytes" where
  "render_line l = fst (fst l) @ [CHR '':''] @ snd (fst l) @ snd l"

definition render_body :: "((bytes \<times> bytes) \<times> bytes) list \<Rightarrow> bytes" where
  "render_body ls = concat (map render_line ls)"

text \<open>Ascending order of byte slices, by \<^verbatim>\<open>bytes.Compare\<close>.\<close>

definition ascending :: "bytes list \<Rightarrow> bool" where
  "ascending ss = sorted_wrt (\<lambda>a b. bytes_Compare a b < 0) ss"

subsection \<open>Requests, responses and errors\<close>

text \<open>
  A \<^verbatim>\<open>context.Context\<close> is opaque to the package: \<open>Background\<close> is
  \<^verbatim>\<open>context.Background()\<close>, the others are told apart by a number. A nil context is
  \<open>None\<close> of \<open>context option\<close>.
\<close>

datatype "context" = Background | Context nat

text \<open>
  The fields of \<^verbatim>\<open>*http.Request\<close> that the package sets: the context, the method, the
  URL and the header (\<^verbatim>\<open>Header.Set\<close> replaces the value of a key).
\<close>

record request =
  Ctx :: "context"
  Method :: string
  URL :: string
  Header :: "string \<rightharpoonup> string"

text \<open>
  \<^verbatim>\<open>res.Body\<close> is an \<^verbatim>\<open>io.ReadCloser\<close>: either the body that the transport made, which
  yields some bytes and then ends with \<^verbatim>\<open>io.EOF\<close> (\<open>None\<close>) or with a read error, or
  the \<^verbatim>\<open>*pwnedResultBuffer\<close> that \<^verbatim>\<open>doRequest\<close> puts in its place.
\<close>

datatype body = ReaderBody bytes "string option" | ResultBody pwnedResultBuffer

record response =
  StatusCode :: int
  Status :: string
  Body :: body

text \<open>
  Go's \<^verbatim>\<open>error\<close> values: those of the collaborators and of the standard library, known
  by their message, and the package's own \<^verbatim>\<open>*ErrorUnexpectedResponse\<close> of
  \<^verbatim>\<open>errors.go\<close>. A nil error is \<open>None\<close> of \<open>error option\<close>.
\<close>

datatype error = External string | ErrorUnexpectedResponse response

text \<open>
  What a Go function with results \<^verbatim>\<open>(*http.Response, error)\<close> does: it returns the
  pair, or it panics. \<^verbatim>\<open>Check\<close> returns \<^verbatim>\<open>(bool, error)\<close>, or panics.
\<close>

datatype outcome = Returned "response option" "error option" | Panicked string

datatype check_result = CheckReturn bool "error option" | CheckPanic string

subsection \<open>The collaborators\<close>

text \<open>
  The cache and the transport are interfaces whose implementations have effects of their
  own. They are functions on a world \<open>'w\<close> that the package never looks into; the
  \<open>trace\<close> records, in order, every call that the package makes to them. The package's
  global \<^verbatim>\<open>bufferPool\<close> of \<^verbatim>\<open>pools.go\<close> is part of the state: \<^verbatim>\<open>Get\<close> takes the buffer put
  back last, or a new empty one (\<^verbatim>\<open>sync.Pool\<close> may also drop buffers; then it returns a
  new one as well).
\<close>

datatype event =
    CallContains "context" bytes bytes
  | CallAdd "context" bytes "bytes list"
  | CallDo request

record 'w state =
  world :: 'w
  trace :: "event list"
  bufferPool :: "bytes list"

record 'w PwnedCache =
  Add :: "context \<Rightarrow> bytes \<Rightarrow> bytes list \<Rightarrow> 'w \<Rightarrow> error option \<times> 'w"
  Contains :: "context \<Rightarrow> bytes \<Rightarrow> bytes \<Rightarrow> 'w \<Rightarrow> (bool \<times> error option) \<times> 'w"

type_synonym 'w http_client = "request \<Rightarrow> 'w \<Rightarrow> (response option \<times> error option) \<times> 'w"

definition call_Contains ::
  "'w PwnedCache \<Rightarrow> context \<Rightarrow> bytes \<Rightarrow> bytes \<Rightarrow> 'w state \<Rightarrow> (bool \<times> error option) \<times> 'w state" where
  "call_Contains cache ctx prefix suffix st =
     (case Contains cache ctx prefix suffix (world st) of
        (r, w) \<Rightarrow> (r, st\<lparr>world := w, trace := trace st @ [CallContains ctx prefix suffix]\<rparr>))"

definition call_Add ::
  "'w PwnedCache \<Rightarrow> context \<Rightarrow> bytes \<Rightarrow> bytes list \<Rightarrow> 'w state \<Rightarrow> error option \<times> 'w state" where
  "call_Add cache ctx prefix suffixes st =
     (case Add cache ctx prefix suffixes (world st) of
        (r, w) \<Rightarrow> (r, st\<lparr>world := w, trace := trace st @ [CallAdd ctx prefix suffixes]\<rparr>))"

definition call_Do ::
  "'w http_client \<Rightarrow> request \<Rightarrow> 'w state \<Rightarrow> (response option \<times> error option) \<times> 'w state" where
  "call_Do client req st =
     (case client req (world st) of
        (r, w) \<Rightarrow> (r, st\<lparr>world := w, trace := trace st @ [CallDo req]\<rparr>))"

definition bufferPool_Get :: "'w state \<Rightarrow> bytes \<times> 'w state" where
  "bufferPool_Get st =
     (case bufferPool st of
        [] \<Rightarrow> ([], st)
      | b # bs \<Rightarrow> (b, st\<lparr>bufferPool := bs\<rparr>))"

definition bufferPool_Put :: "bytes \<Rightarrow> 'w state \<Rightarrow> 'w state" where
  "bufferPool_Put b st = st\<lparr>bufferPool := b # bufferPool st\<rparr>"

text \<open>The requests that a trace holds, in order.\<close>

fun transport_calls :: "event list \<Rightarrow> request list" where
  "transport_calls [] = []"
| "transport_calls (CallDo req # evs) = req # transport_calls evs"
| "transport_calls (_ # evs) = transport_calls evs"

subsection \<open>What the package takes from the standard library\<close>

text \<open>
  \<^verbatim>\<open>crypto/sha1\<close>, \<^verbatim>\<open>net/url\<close> and \<^verbatim>\<open>http.DefaultClient\<close> are not code of the package, so
  they are parameters: \<open>sha1_Sum\<close> returns the \<^verbatim>\<open>[20]byte\<close> digest as a 160-bit word
  (most significant byte first), \<open>url_Parse\<close> the error of \<^verbatim>\<open>url.Parse\<close>, if any.
\<close>

record 'w env =
  sha1_Sum :: "bytes \<Rightarrow> 160 word"
  url_Parse :: "string \<Rightarrow> error option"
  DefaultClient :: "'w http_client"

text \<open>The 20 bytes of a digest, \<^verbatim>\<open>sum[:]\<close>.\<close>

definition sum_bytes :: "160 word \<Rightarrow> 8 word list" where
  "sum_bytes w = map (\<lambda>i. ucast (drop_bit (8 * (19 - i)) w)) [0..<20]"

text \<open>\<^verbatim>\<open>hex.EncodeToString\<close>: two characters of \<^verbatim>\<open>hextable\<close> for each byte.\<close>

definition hextable :: string where
  "hextable = ''0123456789abcdef''"

definition hex_EncodeToString :: "8 word list \<Rightarrow> string" where
  "hex_EncodeToString src =
     concat (map (\<lambda>v. [hextable ! unat (drop_bit 4 v), hextable ! unat (and v 0x0f)]) src)"

text \<open>
  \<^verbatim>\<open>strings.ToUpper\<close>, on ASCII text (a hexadecimal string has no other letters): each
  of the letters \<^verbatim>\<open>a\<close> to \<^verbatim>\<open>z\<close> becomes its capital, every other byte stays.
\<close>

definition strings_ToUpper :: "string \<Rightarrow> string" where
  "strings_ToUpper s =
     map (\<lambda>c. case map_of (zip ''abcdefghijklmnopqrstuvwxyz'' ''ABCDEFGHIJKLMNOPQRSTUVWXYZ'') c of
                None \<Rightarrow> c
              | Some u \<Rightarrow> u) s"

text \<open>
  \<^verbatim>\<open>http.NewRequestWithContext(ctx, http.MethodGet, url, nil)\<close>: the method is valid, so
  the errors left are the nil context and a URL that does not parse.
\<close>

definition http_NewRequestWithContext ::
  "'w env \<Rightarrow> context option \<Rightarrow> string \<Rightarrow> string \<Rightarrow> error + request" where
  "http_NewRequestWithContext env ctx method url =
     (case ctx of
        None \<Rightarrow> Inl (External ''net/http: nil Context'')
      | Some cx \<Rightarrow>
          (case url_Parse env url of
             Some err \<Rightarrow> Inl err
           | None \<Rightarrow> Inr \<lparr>Ctx = cx, Method = method, URL = url, Header = Map.empty\<rparr>))"

text \<open>
  \<^verbatim>\<open>buf.Buffer.ReadFrom(originalBody)\<close>: what reading a body to its end yields, and the
  error that ended it, if it was not \<^verbatim>\<open>io.EOF\<close>.
\<close>

fun body_read :: "body \<Rightarrow> bytes \<times> string option" where
  "body_read (ReaderBody bs err) = (bs, err)"
| "body_read (ResultBody buf) = (Buffer buf, None)"

subsection \<open>refcountBox\<close>

text \<open>
  \<^verbatim>\<open>Value\<close> is the function that \<^verbatim>\<open>sync.OnceValues\<close> returns: not yet called (it then
  holds the context that \<^verbatim>\<open>doCheck\<close> captured), or called, with the outcome it repeats
  at every later call. \<^verbatim>\<open>OnRelease\<close> is a function or nil; the only function that the
  package stores there is the closure of \<^verbatim>\<open>doCheck\<close>, so the field says whether it is
  there, and \<open>buffer\<close> is the pooled \<^verbatim>\<open>*bytes.Buffer\<close> that the closure captured.
  \<^verbatim>\<open>Refcount\<close> is an \<^verbatim>\<open>int32\<close>: a 32-bit word, whose sum and difference wrap around
  as \<^verbatim>\<open>atomic.AddInt32\<close> does.
\<close>

datatype once = NotRun "context" | Ran outcome

record refcountBox =
  Refcount :: "32 word"
  OnRelease :: bool
  Value :: once
  buffer :: bytes

definition Acquire :: "refcountBox \<Rightarrow> refcountBox" where
  "Acquire b = b\<lparr>Refcount := Refcount b + 1\<rparr>"

text \<open>
  \<^verbatim>\<open>Release\<close>: the box after the call, and what happened: the count did not reach zero,
  \<^verbatim>\<open>OnRelease\<close> was called (and set to nil), or the call of a nil function panicked.
\<close>

datatype released = NotLast | Fired | NilCall

definition Release :: "refcountBox \<Rightarrow> refcountBox \<times> released" where
  "Release b =
     (let b1 = b\<lparr>Refcount := Refcount b - 1\<rparr> in
      if Refcount b1 = 0 then
        (if OnRelease b1 then (b1\<lparr>OnRelease := False\<rparr>, Fired) else (b1, NilCall))
      else (b1, NotLast))"

subsection \<open>PwnedClient\<close>

text \<open>
  The \<^verbatim>\<open>lock\<close> is left out: the calls of this model run one after the other. A box is
  reached through the \<^verbatim>\<open>requests\<close> table, under its prefix; a nil table is the empty
  one.
\<close>

record 'w PwnedClient =
  UserAgent :: string
  Cache :: "'w PwnedCache option"
  HTTP :: "'w http_client option"
  requests :: "string \<rightharpoonup> refcountBox"

definition PwnedPasswordsURL :: "string \<Rightarrow> string" where
  "PwnedPasswordsURL prefix = ''https://api.pwnedpasswords.com/range/'' @ prefix"

definition DefaultUserAgent :: string where
  "DefaultUserAgent = ''https://github.com/supabase/hibp''"

text \<open>
  \<^verbatim>\<open>doRequest\<close>: the outcome, the buffer as the call leaves it, and the state. The
  deferred \<^verbatim>\<open>originalBody.Close()\<close> has no result that the package reads.
\<close>

definition doRequest ::
  "'w env \<Rightarrow> 'w PwnedClient \<Rightarrow> context option \<Rightarrow> pwnedResultBuffer \<Rightarrow> bytes \<Rightarrow> 'w state
     \<Rightarrow> outcome \<times> pwnedResultBuffer \<times> 'w state" where
  "doRequest env c ctx buf prefix st =
     (case http_NewRequestWithContext env ctx ''GET'' (PwnedPasswordsURL prefix) of
        Inl err \<Rightarrow> (Returned None (Some err), buf, st)
      | Inr req0 \<Rightarrow>
          (let userAgent = (if UserAgent c = [] then DefaultUserAgent else UserAgent c);
               req = (if userAgent \<noteq> []
                      then req0\<lparr>Header := (Header req0)(''User-Agent'' \<mapsto> userAgent)\<rparr>
                      else req0);
               client = (case HTTP c of None \<Rightarrow> DefaultClient env | Some h \<Rightarrow> h)
           in
           case call_Do client req st of
             ((res, Some err), st1) \<Rightarrow> (Returned res (Some err), buf, st1)
           | ((None, None), st1) \<Rightarrow> (Panicked ''nil pointer dereference'', buf, st1)
           | ((Some r, None), st1) \<Rightarrow>
               if StatusCode r = 200 then
                 (case body_read (Body r) of
                    (bs, Some err) \<Rightarrow>
                      (Returned (Some r) (Some (External err)), buf\<lparr>Buffer := Buffer buf @ bs\<rparr>, st1)
                  | (bs, None) \<Rightarrow>
                      (let buf1 = Parse (buf\<lparr>Buffer := Buffer buf @ bs\<rparr>) in
                       case Cache c of
                         None \<Rightarrow> (Returned (Some (r\<lparr>Body := ResultBody buf1\<rparr>)) None, buf1, st1)
                       | Some cache \<Rightarrow>
                           if length (Suffixes buf1) > 0 then
                             (case call_Add cache (Ctx req) prefix (Suffixes buf1) st1 of
                                (Some err, st2) \<Rightarrow> (Returned (Some r) (Some err), buf1, st2)
                              | (None, st2) \<Rightarrow>
                                  (Returned (Some (r\<lparr>Body := ResultBody buf1\<rparr>)) None, buf1, st2))
                           else (Returned (Some (r\<lparr>Body := ResultBody buf1\<rparr>)) None, buf1, st1)))
               else (Returned (Some r) None, buf, st1)))"

text \<open>
  \<^verbatim>\<open>doCheck\<close>: the box of the prefix, made if the table has none, and acquired. The
  slice of \<^verbatim>\<open>suffixesPool\<close> has length 0 whenever it is taken (the pool holds pointers
  to slice headers that nothing changes), so the buffer of a new request starts without
  suffixes.
\<close>

definition doCheck :: "'w PwnedClient \<Rightarrow> context \<Rightarrow> bytes \<Rightarrow> 'w state \<Rightarrow> 'w PwnedClient \<times> 'w state" where
  "doCheck c ctx prefix st =
     (case requests c prefix of
        None \<Rightarrow>
          (case bufferPool_Get st of
             (b, st1) \<Rightarrow>
               (let box = \<lparr>Refcount = 0, OnRelease = True, Value = NotRun ctx, buffer = b\<rparr>
                in (c\<lparr>requests := (requests c)(prefix \<mapsto> Acquire box)\<rparr>, st1)))
      | Some box \<Rightarrow> (c\<lparr>requests := (requests c)(prefix \<mapsto> Acquire box)\<rparr>, st))"

definition releaseRequest :: "'w PwnedClient \<Rightarrow> string \<Rightarrow> 'w PwnedClient" where
  "releaseRequest c prefix = c\<lparr>requests := (requests c)(prefix := None)\<rparr>"

text \<open>
  \<^verbatim>\<open>box.Value()\<close> on the box of the prefix: the first call runs \<^verbatim>\<open>doRequest\<close> on a new
  \<^verbatim>\<open>pwnedResultBuffer\<close> around the pooled buffer and keeps the outcome; later calls
  repeat it.
\<close>

definition box_Value ::
  "'w env \<Rightarrow> 'w PwnedClient \<Rightarrow> bytes \<Rightarrow> 'w state \<Rightarrow> outcome \<times> 'w PwnedClient \<times> 'w state" where
  "box_Value env c prefix st =
     (case requests c prefix of
        None \<Rightarrow> (Panicked ''nil pointer dereference'', c, st)
      | Some box \<Rightarrow>
          (case Value box of
             Ran out \<Rightarrow> (out, c, st)
           | NotRun ctx \<Rightarrow>
               (case doRequest env c (Some ctx)
                       \<lparr>Buffer = buffer box, SuffixesSorted = False, Suffixes = []\<rparr> prefix st of
                  (out, buf, st1) \<Rightarrow>
                    (out,
                     c\<lparr>requests := (requests c)(prefix \<mapsto> box\<lparr>Value := Ran out, buffer := Buffer buf\<rparr>)\<rparr>,
                     st1))))"

text \<open>
  \<^verbatim>\<open>box.Release()\<close> on the box of the prefix, with the closure that \<^verbatim>\<open>doCheck\<close> stored in
  \<^verbatim>\<open>OnRelease\<close>: \<^verbatim>\<open>releaseRequest\<close> and the return of the buffer to its pool. The first
  component is the panic, if any.
\<close>

definition box_Release ::
  "'w PwnedClient \<Rightarrow> bytes \<Rightarrow> 'w state \<Rightarrow> string option \<times> 'w PwnedClient \<times> 'w state" where
  "box_Release c prefix st =
     (case requests c prefix of
        None \<Rightarrow> (Some ''nil pointer dereference'', c, st)
      | Some box \<Rightarrow>
          (case Release box of
             (box1, NotLast) \<Rightarrow> (None, c\<lparr>requests := (requests c)(prefix \<mapsto> box1)\<rparr>, st)
           | (box1, Fired) \<Rightarrow> (None, releaseRequest c prefix, bufferPool_Put (buffer box1) st)
           | (box1, NilCall) \<Rightarrow>
               (Some ''call of nil func'', c\<lparr>requests := (requests c)(prefix \<mapsto> box1)\<rparr>, st)))"

text \<open>The upper-case hexadecimal digest of a password, \<^verbatim>\<open>hexsum\<close> in \<^verbatim>\<open>Check\<close>.\<close>

definition hexsum :: "'w env \<Rightarrow> bytes \<Rightarrow> bytes" where
  "hexsum env password = strings_ToUpper (hex_EncodeToString (sum_bytes (sha1_Sum env password)))"

text \<open>
  The end of \<^verbatim>\<open>Check\<close>, from \<^verbatim>\<open>res, err := box.Value()\<close> on: what it returns for an
  outcome of the box.
\<close>

definition Check_result :: "outcome \<Rightarrow> bytes \<Rightarrow> check_result" where
  "Check_result out suffix =
     (case out of
        Panicked p \<Rightarrow> CheckPanic p
      | Returned res (Some err) \<Rightarrow> CheckReturn False (Some err)
      | Returned None None \<Rightarrow> CheckPanic ''nil pointer dereference''
      | Returned (Some r) None \<Rightarrow>
          if StatusCode r \<noteq> 200 then CheckReturn False (Some (ErrorUnexpectedResponse r))
          else
            (case Body r of
               ResultBody buf \<Rightarrow> CheckReturn (Lookup buf suffix) None
             | ReaderBody bs err \<Rightarrow> CheckPanic ''interface conversion''))"

text \<open>
  \<^verbatim>\<open>Check\<close> after the cache: \<^verbatim>\<open>doCheck\<close>, the value of the box, the result, and the
  deferred \<^verbatim>\<open>box.Release()\<close>, whose panic would replace the result.
\<close>

definition Check_fetch ::
  "'w env \<Rightarrow> 'w PwnedClient \<Rightarrow> context \<Rightarrow> bytes \<Rightarrow> bytes \<Rightarrow> 'w state
     \<Rightarrow> check_result \<times> 'w PwnedClient \<times> 'w state" where
  "Check_fetch env c ctx prefix suffix st =
     (case doCheck c ctx prefix st of
        (c1, st1) \<Rightarrow>
          (case box_Value env c1 prefix st1 of
             (out, c2, st2) \<Rightarrow>
               (case box_Release c2 prefix st2 of
                  (None, c3, st3) \<Rightarrow> (Check_result out suffix, c3, st3)
                | (Some p, c3, st3) \<Rightarrow> (CheckPanic p, c3, st3))))"

definition Check ::
  "'w env \<Rightarrow> 'w PwnedClient \<Rightarrow> context option \<Rightarrow> bytes \<Rightarrow> 'w state
     \<Rightarrow> check_result \<times> 'w PwnedClient \<times> 'w state" where
  "Check env c ctx0 password st =
     (let ctx = (case ctx0 of None \<Rightarrow> Background | Some cx \<Rightarrow> cx);
          prefix = take 5 (hexsum env password);
          suffix = drop 5 (hexsum env password)
      in
      case Cache c of
        None \<Rightarrow> Check_fetch env c ctx prefix suffix st
      | Some cache \<Rightarrow>
          (case call_Contains cache ctx prefix suffix st of
             ((contains, Some err), st1) \<Rightarrow> (CheckReturn contains (Some err), c, st1)
           | ((contains, None), st1) \<Rightarrow>
               if contains then (CheckReturn True None, c, st1)
               else Check_fetch env c ctx prefix suffix st1))"

text \<open>
  Not code of the package: the request that the documentation of \<^verbatim>\<open>Check\<close> describes, a
  \<^verbatim>\<open>GET\<close> of the range URL of a prefix with the \<^verbatim>\<open>User-Agent\<close> of the client, to state the
  claims about what reaches the transport.
\<close>

definition range_request :: "'w PwnedClient \<Rightarrow> context \<Rightarrow> bytes \<Rightarrow> request" where
  "range_request c cx prefix =
     \<lparr>Ctx = cx, Method = ''GET'', URL = PwnedPasswordsURL prefix,
      Header = [''User-Agent'' \<mapsto> (if UserAgent c = [] then DefaultUserAgent else UserAgent c)]\<rparr>"

text \<open>
  Not code of the package either: the outcome of \<^verbatim>\<open>box.Value()\<close> in a call of \<^verbatim>\<open>Check\<close>,
  to state the claims that start from it. It is \<open>None\<close> when \<^verbatim>\<open>Check\<close> returns before
  it asks for a box, on a cache hit or a cache error.
\<close>

definition fetch_outcome :: "'w env \<Rightarrow> 'w PwnedClient \<Rightarrow> context \<Rightarrow> bytes \<Rightarrow> 'w state \<Rightarrow> outcome" where
  "fetch_outcome env c ctx prefix st =
     (case doCheck c ctx prefix st of (c1, st1) \<Rightarrow> fst (box_Value env c1 prefix st1))"

definition Check_outcome ::
  "'w env \<Rightarrow> 'w PwnedClient \<Rightarrow> context option \<Rightarrow> bytes \<Rightarrow> 'w state \<Rightarrow> outcome option" where
  "Check_outcome env c ctx0 password st =
     (let ctx = (case ctx0 of None \<Rightarrow> Background | Some cx \<Rightarrow> cx);
          prefix = take 5 (hexsum env password);
          suffix = drop 5 (hexsum env password)
      in
      case Cache c of
        None \<Rightarrow> Some (fetch_outcome env c ctx prefix st)
      | Some cache \<Rightarrow>
          (case call_Contains cache ctx prefix suffix st of
             ((contains, Some err), st1) \<Rightarrow> None
           | ((contains, None), st1) \<Rightarrow>
               if contains then None else Some (fetch_outcome env c ctx prefix st1)))"

subsection \<open>Calls that hold the box of one prefix at the same time\<close>

text \<open>
  Not code of the package: the calls of \<^verbatim>\<open>Check\<close> that run at the same time, as far as the
  box of one prefix goes. Each call is a holder of the box. It takes three steps, in this
  order: it acquires the box (\<^verbatim>\<open>doCheck\<close>, which runs under the lock), it asks for the
  value (\<^verbatim>\<open>sync.OnceValues\<close> runs \<^verbatim>\<open>doRequest\<close> for the first holder that asks, while the
  others wait for the same outcome), and it releases the box. An interleaving is the list
  of the steps of all the holders, in the order in which they take effect on the client.
\<close>

datatype step = Acq "context" | Val | Rel

fun holder_step ::
  "'w env \<Rightarrow> bytes \<Rightarrow> step \<Rightarrow> 'w PwnedClient \<times> 'w state \<Rightarrow> 'w PwnedClient \<times> 'w state" where
  "holder_step env prefix (Acq ctx) (c, st) = doCheck c ctx prefix st"
| "holder_step env prefix Val (c, st) = snd (box_Value env c prefix st)"
| "holder_step env prefix Rel (c, st) = snd (box_Release c prefix st)"

definition interleaving ::
  "'w env \<Rightarrow> bytes \<Rightarrow> step list \<Rightarrow> 'w PwnedClient \<times> 'w state \<Rightarrow> 'w PwnedClient \<times> 'w state" where
  "interleaving env prefix ss cs = fold (holder_step env prefix) ss cs"

text \<open>
  \<open>overlapping n ss\<close>: with \<open>n\<close> holders now, \<open>ss\<close> are steps of holders whose holds
  overlap. A holder asks for the value and releases while it holds, and the number of
  holders comes back to zero with the last step only: every holder acquires before the
  holders before it have all released. \<open>holders n ss\<close> is the number of holders after the
  steps. Only the last release of overlapping holders brings the count to zero, and
  after its decrement no holder is left to take a step before \<^verbatim>\<open>OnRelease\<close> runs; so
  \<^verbatim>\<open>Release\<close> is one step here.
\<close>

fun overlapping :: "nat \<Rightarrow> step list \<Rightarrow> bool" where
  "overlapping n [] = (n = 0)"
| "overlapping n (Acq ctx # ss) = overlapping (Suc n) ss"
| "overlapping n (Val # ss) = (0 < n \<and> overlapping n ss)"
| "overlapping n (Rel # ss) = (0 < n \<and> (n = 1 \<longrightarrow> ss = []) \<and> overlapping (n - 1) ss)"




subsection \<open>The collaborators of the package's tests\<close>

text \<open>
  The test doubles of \<^verbatim>\<open>pwned_test.go\<close>, without a state of their own: a transport that
  answers every request with one status and body, and a cache whose two methods return
  fixed results. The digest is the SHA-1 of \<^verbatim>\<open>password1\<close>, the password of the tests,
  with prefix \<^verbatim>\<open>E38AD\<close>.
\<close>

definition test_env :: "unit env" where
  "test_env =
     \<lparr>sha1_Sum = (\<lambda>password. 0xE38AD214943DAAD1D64C102FAEC29DE4AFE9DA3D),
      url_Parse = (\<lambda>url. None),
      DefaultClient = (\<lambda>req w. ((None, Some (External ''no network'')), w))\<rparr>"

definition test_state :: "unit state" where
  "test_state = \<lparr>world = (), trace = [], bufferPool = []\<rparr>"

definition test_response :: "int \<Rightarrow> bytes \<Rightarrow> response" where
  "test_response code bs = \<lparr>StatusCode = code, Status = [], Body = ReaderBody bs None\<rparr>"

definition test_transport :: "int \<Rightarrow> bytes \<Rightarrow> unit http_client" where
  "test_transport code bs = (\<lambda>req w. ((Some (test_response code bs), None), w))"

definition test_cache :: "bool \<times> error option \<Rightarrow> error option \<Rightarrow> unit PwnedCache" where
  "test_cache contains added =
     \<lparr>Add = (\<lambda>ctx prefix suffixes w. (added, w)),
      Contains = (\<lambda>ctx prefix suffix w. (contains, w))\<rparr>"

definition test_client :: "unit PwnedCache option \<Rightarrow> unit http_client \<Rightarrow> unit PwnedClient" where
  "test_client cache transport =
     \<lparr>UserAgent = ''test'', Cache = cache, HTTP = Some transport, requests = Map.empty\<rparr>"

definition test_body :: bytes where
  "test_body = ''214943DAAD1D64C102FAEC29DE4AFE9DA3D:1'' @ [CHR 0x0D, CHR 0x0A]"


section \<open>Properties of the response buffer\<close>

subsection \<open>Comparison and binary search\<close>

lemma bytes_Compare_less: "bytes_Compare a b < 0 \<longleftrightarrow> a < b"
  by (induction a b rule: bytes_Compare.induct) (auto simp: less_char_def)

lemma bytes_Compare_eq: "bytes_Compare a b = 0 \<longleftrightarrow> a = b"
  by (induction a b rule: bytes_Compare.induct) (auto simp: less_char_def)

lemma bytes_Compare_ge: "bytes_Compare a b \<ge> 0 \<longleftrightarrow> b \<le> a"
  using bytes_Compare_less [of a b] by auto

declare sort_Search_loop.simps [simp del]

lemma sort_Search_loop_least:
  assumes "\<And>a b. a \<le> b \<Longrightarrow> b < n \<Longrightarrow> f a \<Longrightarrow> f b"
    and "i \<le> j" and "j \<le> n" and "\<forall>k<i. \<not> f k" and "\<forall>k. j \<le> k \<and> k < n \<longrightarrow> f k"
  shows "sort_Search_loop f i j \<le> n \<and> (\<forall>k < sort_Search_loop f i j. \<not> f k) \<and>
         (\<forall>k. sort_Search_loop f i j \<le> k \<and> k < n \<longrightarrow> f k)"
  using assms
proof (induction f i j rule: sort_Search_loop.induct)
  case (1 f i j)
  show ?case
  proof (cases "i < j")
    case False
    then have "sort_Search_loop f i j = i"
      by (subst sort_Search_loop.simps) simp
    moreover have "i = j" using False 1(4) by simp
    ultimately show ?thesis using 1(5,6,7) by simp
  next
    case True
    define h where "h = (i + j) div 2"
    have hb: "i \<le> h" "h < j" using True by (auto simp: h_def)
    show ?thesis
    proof (cases "f h")
      case False
      have eq: "sort_Search_loop f i j = sort_Search_loop f (h + 1) j"
        using True False by (subst sort_Search_loop.simps) (simp add: h_def Let_def)
      have "\<forall>k<h + 1. \<not> f k"
      proof (intro allI impI)
        fix k assume "k < h + 1"
        then have "k \<le> h" by simp
        moreover have "h < n" using hb 1(5) by simp
        ultimately show "\<not> f k" using 1(3) [of k h] False by blast
      qed
      moreover have "h + 1 \<le> j" using hb by simp
      ultimately have "sort_Search_loop f (h + 1) j \<le> n \<and>
          (\<forall>k < sort_Search_loop f (h + 1) j. \<not> f k) \<and>
          (\<forall>k. sort_Search_loop f (h + 1) j \<le> k \<and> k < n \<longrightarrow> f k)"
        by (intro 1(1) [OF True h_def False 1(3)] 1(5) 1(7)) 
      then show ?thesis
        unfolding eq .
    next
      case fh: True
      have eq: "sort_Search_loop f i j = sort_Search_loop f i h"
        using True fh by (subst sort_Search_loop.simps) (simp add: h_def Let_def)
      have "\<forall>k. h \<le> k \<and> k < n \<longrightarrow> f k"
        using 1(3) [of h] fh by blast
      moreover have "h \<le> n" using hb 1(5) by simp
      moreover have "i \<le> h" by (rule hb)
      moreover have "\<not> \<not> f h" using fh by simp
      ultimately have "sort_Search_loop f i h \<le> n \<and>
          (\<forall>k < sort_Search_loop f i h. \<not> f k) \<and>
          (\<forall>k. sort_Search_loop f i h \<le> k \<and> k < n \<longrightarrow> f k)"
        by (intro 1(2) [OF True h_def _ 1(3)] 1(6))
      then show ?thesis
        unfolding eq .
    qed
  qed
qed

lemma Lookup_scan_iff: "Lookup_scan ss s \<longleftrightarrow> s \<in> set ss"
  by (induction ss) (auto simp: bytes_Equal_def)

lemma ascending_iff: "ascending ss \<longleftrightarrow> sorted_wrt (<) ss"
  by (simp add: ascending_def bytes_Compare_less)

lemma Lookup_search_iff:
  assumes "sorted_wrt (<) ss"
  shows "(let index = sort_Search (length ss) (\<lambda>i. bytes_Compare (ss ! i) s \<ge> 0)
          in if index < length ss then bytes_Equal s (ss ! index) else False) \<longleftrightarrow> s \<in> set ss"
proof -
  define f where "f = (\<lambda>i. bytes_Compare (ss ! i) s \<ge> 0)"
  define r where "r = sort_Search (length ss) f"
  have mono: "f b" if "a \<le> b" "b < length ss" "f a" for a b
  proof (cases "a = b")
    case True with that show ?thesis by simp
  next
    case False
    with that have "a < b" by simp
    with assms that have "ss ! a < ss ! b"
      by (simp add: sorted_wrt_iff_nth_less)
    with that show ?thesis by (simp add: f_def bytes_Compare_ge)
  qed
  have r: "r \<le> length ss \<and> (\<forall>k<r. \<not> f k) \<and> (\<forall>k. r \<le> k \<and> k < length ss \<longrightarrow> f k)"
    unfolding r_def sort_Search_def
    by (rule sort_Search_loop_least [where n = "length ss"]) (use mono in auto)
  have "(r < length ss \<and> s = ss ! r) \<longleftrightarrow> s \<in> set ss"
  proof
    assume "r < length ss \<and> s = ss ! r"
    then show "s \<in> set ss" by auto
  next
    assume "s \<in> set ss"
    then obtain p where p: "p < length ss" "ss ! p = s"
      by (auto simp: in_set_conv_nth)
    then have fp: "f p" by (simp add: f_def bytes_Compare_ge)
    with r have "r \<le> p" by (meson not_less)
    have "r = p"
    proof (rule ccontr)
      assume "r \<noteq> p"
      with \<open>r \<le> p\<close> have "r < p" by simp
      with assms p have "ss ! r < s" by (auto simp: sorted_wrt_iff_nth_less)
      moreover from r \<open>r < p\<close> p have "f r" by simp
      ultimately show False by (simp add: f_def bytes_Compare_ge)
    qed
    with p show "r < length ss \<and> s = ss ! r" by simp
  qed
  then show ?thesis
    unfolding r_def f_def Let_def bytes_Equal_def by auto
qed

lemma Lookup_iff:
  assumes "SuffixesSorted buf \<Longrightarrow> ascending (Suffixes buf)"
  shows "Lookup buf s \<longleftrightarrow> s \<in> set (Suffixes buf)"
proof (cases "SuffixesSorted buf")
  case False
  then show ?thesis by (simp add: Lookup_def Lookup_scan_iff)
next
  case True
  with assms have "sorted_wrt (<) (Suffixes buf)" by (simp add: ascending_iff)
  from Lookup_search_iff [OF this, of s] True show ?thesis
    by (simp add: Lookup_def)
qed

subsection \<open>The loop of Parse, line by line\<close>

lemma body_lines_from_ReadBytes:
  "body_lines_from cur b =
     (case ReadBytes (CHR 0x0A) b of
        (line, rest, err) \<Rightarrow>
          if err then [cur @ line] else (cur @ line) # body_lines_from [] rest)"
proof (induction b arbitrary: cur)
  case Nil
  show ?case by (simp add: ReadBytes_def)
next
  case (Cons c cs)
  show ?case
  proof (cases "c = CHR 0x0A")
    case True
    then show ?thesis by (simp add: ReadBytes_def)
  next
    case False
    show ?thesis
    proof (cases "dropWhile (\<lambda>c. c \<noteq> CHR 0x0A) cs")
      case Nil
      with False Cons.IH [of "cur @ [c]"] show ?thesis
        by (simp add: ReadBytes_def del: dropWhile_eq_Nil_conv)
    next
      case (Cons d rest)
      with False Cons.IH [of "cur @ [c]"] show ?thesis
        by (simp add: ReadBytes_def del: dropWhile_eq_Nil_conv)
    qed
  qed
qed

declare Parse_loop.simps [simp del]

lemma Parse_match_Buffer: "(Parse_match m b)\<lparr>Buffer := x\<rparr> = Parse_match m (b\<lparr>Buffer := x\<rparr>)"
  by (simp add: Parse_match_def Let_def)

lemma Parse_line_Buffer: "(Parse_line l b)\<lparr>Buffer := x\<rparr> = Parse_line l (b\<lparr>Buffer := x\<rparr>)"
  by (simp add: Parse_line_def Parse_match_Buffer split: option.splits)

lemma fold_Parse_line_Buffer:
  "(fold Parse_line ls b)\<lparr>Buffer := x\<rparr> = fold Parse_line ls (b\<lparr>Buffer := x\<rparr>)"
  by (induction ls arbitrary: b) (simp_all add: Parse_line_Buffer)

lemma ReadBytes_eof_rest: "ReadBytes d b = (line, rest, True) \<Longrightarrow> rest = []"
  by (auto simp: ReadBytes_def split: list.splits)

lemma Parse_loop_fold:
  "Parse_loop buf = fold Parse_line (body_lines (Buffer buf)) (buf\<lparr>Buffer := []\<rparr>)"
proof (induction buf rule: Parse_loop.induct)
  case (1 buf)
  obtain line rest err where rd: "ReadBytes (CHR 0x0A) (Buffer buf) = (line, rest, err)"
    by (cases "ReadBytes (CHR 0x0A) (Buffer buf)") auto
  have lines: "body_lines (Buffer buf) = (if err then [line] else line # body_lines rest)"
    unfolding body_lines_def
    by (subst body_lines_from_ReadBytes) (simp add: rd)
  show ?case
  proof (cases err)
    case True
    with rd have "rest = []" by (auto dest: ReadBytes_eof_rest)
    with True rd lines show ?thesis
      by (subst Parse_loop.simps) simp
  next
    case False
    have "Parse_loop buf = Parse_loop (Parse_line line (buf\<lparr>Buffer := rest\<rparr>))"
      using rd False by (subst Parse_loop.simps) simp
    also have "\<dots> = fold Parse_line (body_lines rest)
                       ((Parse_line line (buf\<lparr>Buffer := rest\<rparr>))\<lparr>Buffer := []\<rparr>)"
      using 1 [OF rd [symmetric] refl refl False]
      by (simp add: Parse_line_Buffer [symmetric])
    finally show ?thesis
      using False lines by (simp add: Parse_line_Buffer)
  qed
qed

lemma fold_Parse_line_entries:
  "fold Parse_line ls b = fold Parse_match (List.map_filter FindSubmatch ls) b"
  by (induction ls arbitrary: b) (simp_all add: Parse_line_def split: option.splits)

lemma fold_Parse_match_Buffer:
  "(fold Parse_match es b)\<lparr>Buffer := x\<rparr> = fold Parse_match es (b\<lparr>Buffer := x\<rparr>)"
  by (induction es arbitrary: b) (simp_all add: Parse_match_Buffer)

lemma Parse_new_buffer:
  "Parse (new_buffer body) =
     fold Parse_match (body_entries body) \<lparr>Buffer = [], SuffixesSorted = True, Suffixes = []\<rparr>"
  by (simp add: Parse_def new_buffer_def Parse_loop_fold fold_Parse_line_entries
      body_entries_def fold_Parse_match_Buffer)

subsection \<open>What Parse keeps, and the sortedness flag\<close>

lemma FindSubmatch_Some:
  assumes "FindSubmatch line = Some m"
  shows "well_formed_entry m"
  using assms
  by (auto simp: FindSubmatch_def well_formed_entry_def Let_def list_all_iff
      split: if_splits list.splits dest: set_takeWhileD)

lemma body_entries_well_formed: "e \<in> set (body_entries body) \<Longrightarrow> well_formed_entry e"
  by (auto simp: body_entries_def List.map_filter_def dest: FindSubmatch_Some)

lemma kept_iff:
  assumes "occurrence \<noteq> []"
  shows "(length occurrence > 1 \<or> (length occurrence = 1 \<and> occurrence ! 0 \<noteq> CHR ''0''))
           \<longleftrightarrow> occurrence \<noteq> ''0''"
proof (cases occurrence)
  case Nil
  with assms show ?thesis by simp
next
  case (Cons c cs)
  then show ?thesis by (cases cs) auto
qed

lemma Suffixes_Parse_match:
  "snd m \<noteq> [] \<Longrightarrow>
   Suffixes (Parse_match m b) = Suffixes b @ (if snd m \<noteq> ''0'' then [fst m] else [])"
  using kept_iff [of "snd m"] by (simp add: Parse_match_def Let_def)

lemma Suffixes_fold_Parse_match:
  "\<forall>e\<in>set es. snd e \<noteq> [] \<Longrightarrow>
   Suffixes (fold Parse_match es b) = Suffixes b @ map fst (filter (\<lambda>e. snd e \<noteq> ''0'') es)"
  by (induction es arbitrary: b) (simp_all add: Suffixes_Parse_match)

lemma sorted_wrt_snoc_last:
  assumes "sorted_wrt (<) (ss :: bytes list)" and "ss \<noteq> [] \<Longrightarrow> ss ! (length ss - 1) < s"
  shows "sorted_wrt (<) (ss @ [s])"
proof -
  have "x < s" if "x \<in> set ss" for x
  proof -
    from that obtain i where i: "i < length ss" "ss ! i = x"
      by (auto simp: in_set_conv_nth)
    then have ne: "ss \<noteq> []" by auto
    show ?thesis
    proof (cases "i = length ss - 1")
      case True
      with assms(2) [OF ne] i show ?thesis by simp
    next
      case False
      with i have "i < length ss - 1" by simp
      with assms(1) i have "x < ss ! (length ss - 1)"
        by (auto simp: sorted_wrt_iff_nth_less)
      with assms(2) [OF ne] show ?thesis by simp
    qed
  qed
  with assms(1) show ?thesis by (simp add: sorted_wrt_append)
qed

lemma Parse_match_sorted_inv:
  assumes "SuffixesSorted b \<longrightarrow> ascending (Suffixes b)"
  shows "SuffixesSorted (Parse_match m b) \<longrightarrow> ascending (Suffixes (Parse_match m b))"
proof
  assume s: "SuffixesSorted (Parse_match m b)"
  then have sb: "SuffixesSorted b"
    by (auto simp: Parse_match_def Let_def split: if_splits)
  with assms have asc: "sorted_wrt (<) (Suffixes b)" by (simp add: ascending_iff)
  have last: "Suffixes b \<noteq> [] \<Longrightarrow> Suffixes b ! (length (Suffixes b) - 1) < fst m"
    using s sb by (auto simp: Parse_match_def Let_def bytes_Compare_ge split: if_splits)
  from sorted_wrt_snoc_last [OF asc last] asc
  show "ascending (Suffixes (Parse_match m b))"
    by (auto simp: Parse_match_def Let_def ascending_iff split: if_splits)
qed

lemma fold_Parse_match_sorted_inv:
  "SuffixesSorted b \<longrightarrow> ascending (Suffixes b) \<Longrightarrow>
   SuffixesSorted (fold Parse_match es b) \<longrightarrow> ascending (Suffixes (fold Parse_match es b))"
proof (induction es arbitrary: b)
  case Nil
  then show ?case by simp
next
  case (Cons m es)
  from Cons.IH [OF Parse_match_sorted_inv [OF Cons.prems]] show ?case by simp
qed

lemma Parse_match_unsorted: "\<not> SuffixesSorted b \<Longrightarrow> \<not> SuffixesSorted (Parse_match m b)"
  by (simp add: Parse_match_def Let_def)

lemma fold_Parse_match_unsorted:
  "\<not> SuffixesSorted b \<Longrightarrow> \<not> SuffixesSorted (fold Parse_match es b)"
  by (induction es arbitrary: b) (simp_all add: Parse_match_unsorted)

lemma Parse_sorted_ascending:
  "SuffixesSorted (Parse (new_buffer body)) \<longrightarrow> ascending (Suffixes (Parse (new_buffer body)))"
  unfolding Parse_new_buffer
  by (rule fold_Parse_match_sorted_inv) (simp add: ascending_def)

lemma Lookup_Parse:
  "Lookup (Parse (new_buffer body)) s \<longleftrightarrow> s \<in> set (Suffixes (Parse (new_buffer body)))"
  by (rule Lookup_iff) (use Parse_sorted_ascending in blast)

lemma Suffixes_Parse:
  "Suffixes (Parse (new_buffer body)) = map fst (filter (\<lambda>e. snd e \<noteq> ''0'') (body_entries body))"
proof -
  have "\<forall>e\<in>set (body_entries body). snd e \<noteq> []"
    using body_entries_well_formed by (auto simp: well_formed_entry_def)
  then show ?thesis
    by (simp add: Parse_new_buffer Suffixes_fold_Parse_match)
qed

lemma body_lines_from_line:
  "CHR 0x0A \<notin> set l \<Longrightarrow>
   body_lines_from cur (l @ CHR 0x0A # rest) = (cur @ l @ [CHR 0x0A]) # body_lines_from [] rest"
  by (induction l arbitrary: cur) auto

lemma body_lines_from_last:
  "CHR 0x0A \<notin> set l \<Longrightarrow> body_lines_from cur l = [cur @ l]"
  by (induction l arbitrary: cur) auto

lemma hex_not_newline: "is_hex_upper c \<Longrightarrow> c \<noteq> CHR 0x0A"
  by (auto simp: is_hex_upper_def)

lemma digit_not_newline: "is_digit c \<Longrightarrow> c \<noteq> CHR 0x0A"
  by (auto simp: is_digit_def)

lemma space_not_digit: "is_space c \<Longrightarrow> \<not> is_digit c"
  by (auto simp: is_space_def is_digit_def)

lemma entry_no_newline:
  assumes "well_formed_entry e"
  shows "CHR 0x0A \<notin> set (fst e @ [CHR '':''] @ snd e)"
  using assms
  by (auto simp: well_formed_entry_def list_all_iff dest: hex_not_newline digit_not_newline)

lemma FindSubmatch_render:
  assumes "well_formed_line l"
  shows "FindSubmatch (render_line l) = Some (fst l)"
proof -
  obtain s n t where l: "l = ((s, n), t)" by (cases l) auto
  from assms l have s: "length s = 35" "list_all is_hex_upper s"
    and n: "n \<noteq> []" "list_all is_digit n" and t: "list_all is_space t"
    by (simp_all add: well_formed_line_def well_formed_entry_def)
  have t0: "takeWhile is_digit t = []" "dropWhile is_digit t = t"
    using t by (cases t; simp add: space_not_digit)+
  have tw: "takeWhile is_digit (n @ t) = n"
    using n(2) t0 by (simp add: list_all_iff)
  have dw: "dropWhile is_digit (n @ t) = t"
    using n(2) t0 by (simp add: list_all_iff)
  show ?thesis
    using s n t tw dw by (simp add: FindSubmatch_def render_line_def l)
qed

lemma FindSubmatch_Nil: "FindSubmatch [] = None"
  by (simp add: FindSubmatch_def)

lemma render_line_terminated:
  assumes "well_formed_line l" and "terminated l"
  shows "\<exists>front. render_line l = front @ [CHR 0x0A] \<and> CHR 0x0A \<notin> set front"
proof -
  from assms(2) obtain b where b: "snd l = b @ [CHR 0x0A]"
    unfolding terminated_def by (metis append_butlast_last_id)
  then have bl: "butlast (snd l) = b" by simp
  let ?front = "fst (fst l) @ [CHR '':''] @ snd (fst l) @ b"
  have "render_line l = ?front @ [CHR 0x0A]"
    by (simp add: render_line_def b)
  moreover have "CHR 0x0A \<notin> set ?front"
    using assms(1) entry_no_newline [of "fst l"] bl by (auto simp: well_formed_line_def)
  ultimately show ?thesis by blast
qed

lemma render_line_unterminated:
  assumes "well_formed_line l" and "\<not> terminated l"
  shows "CHR 0x0A \<notin> set (render_line l)"
proof -
  have "CHR 0x0A \<notin> set (snd l)"
  proof
    assume in_t: "CHR 0x0A \<in> set (snd l)"
    then have ne: "snd l \<noteq> []" by auto
    then have "snd l = butlast (snd l) @ [last (snd l)]" by simp
    with in_t have "CHR 0x0A \<in> set (butlast (snd l) @ [last (snd l)])" by simp
    then have "CHR 0x0A \<in> set (butlast (snd l)) \<or> last (snd l) = CHR 0x0A"
      by (simp only: set_append set_simps) auto
    with assms ne show False
      by (auto simp: well_formed_line_def terminated_def)
  qed
  with assms(1) entry_no_newline [of "fst l"] show ?thesis
    by (auto simp: well_formed_line_def render_line_def)
qed

lemma entries_of_render:
  assumes "\<forall>l\<in>set ls. well_formed_line l" and "\<forall>l\<in>set (butlast ls). terminated l"
  shows "List.map_filter FindSubmatch (body_lines_from [] (render_body ls)) = map fst ls"
  using assms
proof (induction ls)
  case Nil
  show ?case by (simp add: render_body_def List.map_filter_def FindSubmatch_Nil)
next
  case (Cons l ls)
  then have wf: "well_formed_line l" by simp
  show ?case
  proof (cases "terminated l")
    case True
    from render_line_terminated [OF wf True] obtain front where
      fr: "render_line l = front @ [CHR 0x0A]" "CHR 0x0A \<notin> set front" by blast
    have rest: "List.map_filter FindSubmatch (body_lines_from [] (render_body ls)) = map fst ls"
      using Cons by (cases ls) (simp_all add: render_body_def List.map_filter_def FindSubmatch_Nil)
    have "body_lines_from [] (render_body (l # ls)) =
        render_line l # body_lines_from [] (render_body ls)"
      using body_lines_from_line [OF fr(2), of "[]" "render_body ls"] fr(1)
      by (simp add: render_body_def)
    with rest FindSubmatch_render [OF wf] show ?thesis
      by (simp add: List.map_filter_def)
  next
    case False
    with Cons.prems(2) have "ls = []" by (cases ls) auto
    with body_lines_from_last [OF render_line_unterminated [OF wf False], of "[]"]
      FindSubmatch_render [OF wf]
    show ?thesis
      by (simp add: render_body_def List.map_filter_def)
  qed
qed

lemma body_entries_render:
  assumes "\<forall>l\<in>set ls. well_formed_line l" and "\<forall>l\<in>set (butlast ls). terminated l"
  shows "body_entries (render_body ls) = map fst ls"
  using entries_of_render [OF assms] by (simp add: body_entries_def body_lines_def)

lemma count_value_zero: "count_value ''0'' = 0"
  by (simp add: count_value_def)



section \<open>The claims about Parse and Lookup\<close>

text \<open>
  Claim C1. For every response body, after \<^verbatim>\<open>Parse\<close> on a buffer holding that body,
  \<^verbatim>\<open>Lookup(s)\<close> is true for every suffix \<open>s\<close> that a line of the body gives with a count
  that is not zero, and false for every suffix that no line of the body gives (35 bytes
  long or not). The lines that count are those that match the pattern; for a body made
  of well-formed lines (35 upper-case hexadecimal characters, a colon, a decimal count,
  then white space, with a line feed or a carriage return and a line feed at the end,
  which the last line may lack) they are exactly the lines of the body, in order.
\<close>

theorem Parse_Lookup_every_body:
  "(\<forall>s occurrence. (s, occurrence) \<in> set (body_entries body) \<and> count_value occurrence \<noteq> 0
       \<longrightarrow> Lookup (Parse (new_buffer body)) s)
   \<and> (\<forall>s. s \<notin> fst ` set (body_entries body) \<longrightarrow> \<not> Lookup (Parse (new_buffer body)) s)
   \<and> (\<forall>ls. (\<forall>l\<in>set ls. well_formed_line l) \<and> (\<forall>l\<in>set (butlast ls). terminated l)
            \<and> body = render_body ls
         \<longrightarrow> body_entries body = map fst ls)"
proof (intro conjI allI impI)
  fix s occurrence
  assume a: "(s, occurrence) \<in> set (body_entries body) \<and> count_value occurrence \<noteq> 0"
  then have "occurrence \<noteq> ''0''"
    using count_value_zero by auto
  with a have "s \<in> fst ` {e \<in> set (body_entries body). snd e \<noteq> ''0''}"
    by force
  then show "Lookup (Parse (new_buffer body)) s"
    by (simp add: Lookup_Parse Suffixes_Parse)
next
  fix s
  assume "s \<notin> fst ` set (body_entries body)"
  then have "s \<notin> fst ` {e \<in> set (body_entries body). snd e \<noteq> ''0''}"
    by auto
  then show "\<not> Lookup (Parse (new_buffer body)) s"
    by (simp add: Lookup_Parse Suffixes_Parse)
next
  fix ls
  assume "(\<forall>l\<in>set ls. well_formed_line l) \<and> (\<forall>l\<in>set (butlast ls). terminated l)
            \<and> body = render_body ls"
  then show "body_entries body = map fst ls"
    by (simp add: body_entries_render)
qed

text \<open>
  The theorem at the body without a final line feed of \<^verbatim>\<open>TestPwnedResultParsing\<close>, at the
  body of the tests of \<^verbatim>\<open>Check\<close>, whose line ends with a carriage return and a line feed,
  and at a body of two well-formed lines.
\<close>

theorem Parse_Lookup_every_body_witness:
  "Lookup (Parse (new_buffer ''0123456789ABCDEF0123456789ABCDEF012:1''))
      ''0123456789ABCDEF0123456789ABCDEF012''
   \<and> \<not> Lookup (Parse (new_buffer ''0123456789ABCDEF0123456789ABCDEF012:1'')) ''cantexist''
   \<and> Lookup (Parse (new_buffer test_body)) ''214943DAAD1D64C102FAEC29DE4AFE9DA3D''
   \<and> body_entries (render_body
        [((''214943DAAD1D64C102FAEC29DE4AFE9DA3D'', ''1''), [CHR 0x0D, CHR 0x0A]),
         ((''0123456789ABCDEF0123456789ABCDEF012'', ''0''), [])]) =
       [(''214943DAAD1D64C102FAEC29DE4AFE9DA3D'', ''1''),
        (''0123456789ABCDEF0123456789ABCDEF012'', ''0'')]"
proof -
  let ?ls = "[((''214943DAAD1D64C102FAEC29DE4AFE9DA3D'', ''1''), [CHR 0x0D, CHR 0x0A]),
              ((''0123456789ABCDEF0123456789ABCDEF012'', ''0''), [])]"
  have e1: "body_entries ''0123456789ABCDEF0123456789ABCDEF012:1'' =
      [(''0123456789ABCDEF0123456789ABCDEF012'', ''1'')]"
    by code_simp
  have e2: "body_entries test_body = [(''214943DAAD1D64C102FAEC29DE4AFE9DA3D'', ''1'')]"
    by code_simp
  have c: "count_value ''1'' \<noteq> 0"
    by (simp add: count_value_def)
  have wf: "(\<forall>l\<in>set ?ls. well_formed_line l) \<and> (\<forall>l\<in>set (butlast ?ls). terminated l)"
    by (simp add: well_formed_line_def well_formed_entry_def terminated_def is_hex_upper_def
        is_digit_def is_space_def)
  from Parse_Lookup_every_body [of "''0123456789ABCDEF0123456789ABCDEF012:1''"] e1 c
  have a: "Lookup (Parse (new_buffer ''0123456789ABCDEF0123456789ABCDEF012:1''))
      ''0123456789ABCDEF0123456789ABCDEF012''
    \<and> \<not> Lookup (Parse (new_buffer ''0123456789ABCDEF0123456789ABCDEF012:1'')) ''cantexist''"
    by simp
  from Parse_Lookup_every_body [of test_body] e2 c
  have b: "Lookup (Parse (new_buffer test_body)) ''214943DAAD1D64C102FAEC29DE4AFE9DA3D''"
    by simp
  from Parse_Lookup_every_body [of "render_body ?ls"] wf
  have d: "body_entries (render_body ?ls) = map fst ?ls"
    by blast
  from a b d show ?thesis by simp
qed

text \<open>
  Claim C3, as it is stated, fails: a count written \<^verbatim>\<open>00\<close> denotes zero, but
  \<^verbatim>\<open>Parse\<close> drops a suffix only when its count is the one character \<^verbatim>\<open>0\<close>
  (\<^verbatim>\<open>len(occurrence) > 1 || ...\<close>), so the suffix is kept and \<^verbatim>\<open>Lookup\<close> finds it.
\<close>

theorem zero_count_counterexample:
  "body_entries (''0123456789ABCDEF0123456789ABCDEF012:00'' @ [CHR 0x0A]) =
     [(''0123456789ABCDEF0123456789ABCDEF012'', ''00'')]
   \<and> count_value ''00'' = 0
   \<and> Suffixes (Parse (new_buffer (''0123456789ABCDEF0123456789ABCDEF012:00'' @ [CHR 0x0A]))) =
       [''0123456789ABCDEF0123456789ABCDEF012'']
   \<and> Lookup (Parse (new_buffer (''0123456789ABCDEF0123456789ABCDEF012:00'' @ [CHR 0x0A])))
        ''0123456789ABCDEF0123456789ABCDEF012''"
proof -
  have e: "body_entries (''0123456789ABCDEF0123456789ABCDEF012:00'' @ [CHR 0x0A]) =
     [(''0123456789ABCDEF0123456789ABCDEF012'', ''00'')]"
    by code_simp
  have c: "count_value ''00'' = 0"
    by (simp add: count_value_def)
  from e c show ?thesis
    by (simp add: Lookup_Parse Suffixes_Parse)
qed

text \<open>
  Claim C3, amended. For every response body, a suffix whose every occurrence in the body
  (in a line that matches the pattern) carries the count written as the single digit
  \<^verbatim>\<open>0\<close> is not among the parsed suffixes, and \<^verbatim>\<open>Lookup\<close> on it returns false.
\<close>

theorem Parse_excludes_zero_count:
  assumes "\<forall>occurrence. (s, occurrence) \<in> set (body_entries body) \<longrightarrow> occurrence = ''0''"
  shows "s \<notin> set (Suffixes (Parse (new_buffer body))) \<and> \<not> Lookup (Parse (new_buffer body)) s"
  using assms by (auto simp: Lookup_Parse Suffixes_Parse)

text \<open>The amended claim at the padding line of the package's own test.\<close>

theorem Parse_excludes_zero_count_witness:
  "body_entries (''0123456789ABCDEF0123456789ABCDEF012:0'' @ [CHR 0x0A]) =
     [(''0123456789ABCDEF0123456789ABCDEF012'', ''0'')]
   \<and> ''0123456789ABCDEF0123456789ABCDEF012''
        \<notin> set (Suffixes (Parse (new_buffer (''0123456789ABCDEF0123456789ABCDEF012:0'' @ [CHR 0x0A]))))
   \<and> \<not> Lookup (Parse (new_buffer (''0123456789ABCDEF0123456789ABCDEF012:0'' @ [CHR 0x0A])))
          ''0123456789ABCDEF0123456789ABCDEF012''"
proof -
  have e: "body_entries (''0123456789ABCDEF0123456789ABCDEF012:0'' @ [CHR 0x0A]) =
     [(''0123456789ABCDEF0123456789ABCDEF012'', ''0'')]"
    by code_simp
  then have "\<forall>occurrence. (''0123456789ABCDEF0123456789ABCDEF012'', occurrence)
        \<in> set (body_entries (''0123456789ABCDEF0123456789ABCDEF012:0'' @ [CHR 0x0A]))
      \<longrightarrow> occurrence = ''0''"
    by simp
  from Parse_excludes_zero_count [OF this] e show ?thesis
    by simp
qed

subsection \<open>When the flag stays set, and when it is cleared\<close>

lemma fold_Parse_match_stays_sorted:
  assumes "sorted_wrt (<) (map fst es)" and "SuffixesSorted b"
    and "\<forall>x\<in>set (Suffixes b). \<forall>e\<in>set es. x < fst e"
  shows "SuffixesSorted (fold Parse_match es b)"
  using assms
proof (induction es arbitrary: b)
  case Nil
  then show ?case by simp
next
  case (Cons m es)
  have last: "Suffixes b ! (length (Suffixes b) - 1) < fst m" if "Suffixes b \<noteq> []"
    using that Cons.prems(3) by simp
  then have flag: "SuffixesSorted (Parse_match m b)"
    using Cons.prems(2) by (auto simp: Parse_match_def Let_def bytes_Compare_ge)
  have "set (Suffixes (Parse_match m b)) \<subseteq> insert (fst m) (set (Suffixes b))"
    by (auto simp: Parse_match_def Let_def split: if_splits)
  with Cons.prems(1,3) have "\<forall>x\<in>set (Suffixes (Parse_match m b)). \<forall>e\<in>set es. x < fst e"
    by auto
  with Cons.IH [of "Parse_match m b"] Cons.prems(1) flag show ?case
    by simp
qed

lemma Parse_ascending_input:
  "ascending (map fst (body_entries body)) \<Longrightarrow> SuffixesSorted (Parse (new_buffer body))"
  unfolding Parse_new_buffer
  by (rule fold_Parse_match_stays_sorted) (simp_all add: ascending_iff)

lemma Parse_match_pair_unsorted:
  assumes "snd m1 \<noteq> []" "snd m1 \<noteq> ''0''" "bytes_Compare (fst m1) (fst m2) \<ge> 0"
  shows "\<not> SuffixesSorted (Parse_match m2 (Parse_match m1 b))"
proof (cases "SuffixesSorted (Parse_match m1 b)")
  case False
  then show ?thesis by (rule Parse_match_unsorted)
next
  case True
  have "Suffixes (Parse_match m1 b) = Suffixes b @ [fst m1]"
    using assms(1,2) by (simp add: Suffixes_Parse_match)
  with True assms(3) show ?thesis
    by (simp add: Parse_match_def [of m2] Let_def)
qed

lemma Parse_descending_pair:
  assumes "body_entries body = xs @ [(s1, n1), (s2, n2)] @ ys"
    and "n1 \<noteq> ''0''" and "bytes_Compare s1 s2 \<ge> 0"
  shows "\<not> SuffixesSorted (Parse (new_buffer body))"
proof -
  have "(s1, n1) \<in> set (body_entries body)"
    using assms(1) by simp
  then have "n1 \<noteq> []"
    using body_entries_well_formed [of "(s1, n1)" body] by (simp add: well_formed_entry_def)
  with assms(2,3) have "\<not> SuffixesSorted (Parse_match (s2, n2) (Parse_match (s1, n1) b))" for b
    by (intro Parse_match_pair_unsorted) simp_all
  then show ?thesis
    by (simp add: Parse_new_buffer assms(1) fold_Parse_match_unsorted)
qed

text \<open>
  Claim C4, as it is stated, fails. The sortedness check compares every matching line
  with the last kept suffix, also a line that is then dropped for its count \<^verbatim>\<open>0\<close>: in
  the first body the only parsed suffix is in ascending order, yet the flag is false.
  And a descending pair of lines whose first line is a padding line leaves the flag
  true, as in the second body.
\<close>

theorem SuffixesSorted_counterexample:
  "Suffixes (Parse (new_buffer
      (''1123456789ABCDEF0123456789ABCDEF012:1'' @ [CHR 0x0A] @
       ''0123456789ABCDEF0123456789ABCDEF012:0'' @ [CHR 0x0A]))) =
     [''1123456789ABCDEF0123456789ABCDEF012'']
   \<and> ascending [''1123456789ABCDEF0123456789ABCDEF012'']
   \<and> SuffixesSorted (Parse (new_buffer
      (''1123456789ABCDEF0123456789ABCDEF012:1'' @ [CHR 0x0A] @
       ''0123456789ABCDEF0123456789ABCDEF012:0'' @ [CHR 0x0A]))) = False
   \<and> bytes_Compare ''1123456789ABCDEF0123456789ABCDEF012''
        ''0123456789ABCDEF0123456789ABCDEF012'' = 1
   \<and> SuffixesSorted (Parse (new_buffer
      (''1123456789ABCDEF0123456789ABCDEF012:0'' @ [CHR 0x0A] @
       ''0123456789ABCDEF0123456789ABCDEF012:1'' @ [CHR 0x0A]))) = True"
  by code_simp

text \<open>
  Claim C4, amended. After \<^verbatim>\<open>Parse\<close>: if \<^verbatim>\<open>SuffixesSorted\<close> is true then the parsed
  suffixes are in strictly ascending order; a body whose matching lines have strictly
  ascending suffixes yields \<^verbatim>\<open>SuffixesSorted = true\<close>; a matching line with a count
  other than \<^verbatim>\<open>0\<close> that is followed, as the next matching line, by a suffix that is not
  greater yields \<^verbatim>\<open>SuffixesSorted = false\<close>; and under both values of the flag
  \<^verbatim>\<open>Lookup\<close> answers exactly the membership in the parsed suffixes.
\<close>

theorem SuffixesSorted_sound:
  "(SuffixesSorted (Parse (new_buffer body)) \<longrightarrow> ascending (Suffixes (Parse (new_buffer body))))
   \<and> (ascending (map fst (body_entries body)) \<longrightarrow> SuffixesSorted (Parse (new_buffer body)))
   \<and> ((\<exists>xs s1 n1 s2 n2 ys. body_entries body = xs @ [(s1, n1), (s2, n2)] @ ys
          \<and> n1 \<noteq> ''0'' \<and> bytes_Compare s1 s2 \<ge> 0)
        \<longrightarrow> \<not> SuffixesSorted (Parse (new_buffer body)))
   \<and> (\<forall>s. Lookup (Parse (new_buffer body)) s \<longleftrightarrow> s \<in> set (Suffixes (Parse (new_buffer body))))"
proof (intro conjI)
  show "SuffixesSorted (Parse (new_buffer body)) \<longrightarrow> ascending (Suffixes (Parse (new_buffer body)))"
    by (rule Parse_sorted_ascending)
  show "ascending (map fst (body_entries body)) \<longrightarrow> SuffixesSorted (Parse (new_buffer body))"
    by (simp add: Parse_ascending_input)
  show "(\<exists>xs s1 n1 s2 n2 ys. body_entries body = xs @ [(s1, n1), (s2, n2)] @ ys
          \<and> n1 \<noteq> ''0'' \<and> bytes_Compare s1 s2 \<ge> 0)
        \<longrightarrow> \<not> SuffixesSorted (Parse (new_buffer body))"
    using Parse_descending_pair by blast
  show "\<forall>s. Lookup (Parse (new_buffer body)) s \<longleftrightarrow> s \<in> set (Suffixes (Parse (new_buffer body)))"
    by (simp add: Lookup_Parse)
qed

text \<open>The amended claim at an ascending body and at a descending one.\<close>

theorem SuffixesSorted_sound_witness:
  "SuffixesSorted (Parse (new_buffer
      (''0123456789ABCDEF0123456789ABCDEF012:1'' @ [CHR 0x0A] @
       ''1123456789ABCDEF0123456789ABCDEF012:1'' @ [CHR 0x0A])))
   \<and> ascending (Suffixes (Parse (new_buffer
      (''0123456789ABCDEF0123456789ABCDEF012:1'' @ [CHR 0x0A] @
       ''1123456789ABCDEF0123456789ABCDEF012:1'' @ [CHR 0x0A]))))
   \<and> \<not> SuffixesSorted (Parse (new_buffer
      (''1123456789ABCDEF0123456789ABCDEF012:1'' @ [CHR 0x0A] @
       ''0123456789ABCDEF0123456789ABCDEF012:1'' @ [CHR 0x0A])))
   \<and> Lookup (Parse (new_buffer
      (''1123456789ABCDEF0123456789ABCDEF012:1'' @ [CHR 0x0A] @
       ''0123456789ABCDEF0123456789ABCDEF012:1'' @ [CHR 0x0A])))
        ''0123456789ABCDEF0123456789ABCDEF012''"
proof -
  let ?up = "''0123456789ABCDEF0123456789ABCDEF012:1'' @ [CHR 0x0A] @
             ''1123456789ABCDEF0123456789ABCDEF012:1'' @ [CHR 0x0A]"
  let ?down = "''1123456789ABCDEF0123456789ABCDEF012:1'' @ [CHR 0x0A] @
               ''0123456789ABCDEF0123456789ABCDEF012:1'' @ [CHR 0x0A]"
  have up: "ascending (map fst (body_entries ?up))"
    by code_simp
  have down: "body_entries ?down =
      [] @ [(''1123456789ABCDEF0123456789ABCDEF012'', ''1''),
            (''0123456789ABCDEF0123456789ABCDEF012'', ''1'')] @ []"
    by code_simp
  have cmp: "bytes_Compare ''1123456789ABCDEF0123456789ABCDEF012''
               ''0123456789ABCDEF0123456789ABCDEF012'' \<ge> 0"
    by code_simp
  have pair: "\<exists>xs s1 n1 s2 n2 ys. body_entries ?down = xs @ [(s1, n1), (s2, n2)] @ ys
          \<and> n1 \<noteq> ''0'' \<and> bytes_Compare s1 s2 \<ge> 0"
    using down cmp by (intro exI [of _ "[]"] exI conjI) (assumption, simp, assumption)
  have mem: "''0123456789ABCDEF0123456789ABCDEF012'' \<in> set (Suffixes (Parse (new_buffer ?down)))"
    by code_simp
  from SuffixesSorted_sound [of ?up] SuffixesSorted_sound [of ?down] up pair mem
  show ?thesis by blast
qed

section \<open>Properties of the client\<close>

subsection \<open>What a call adds to the trace\<close>

lemma transport_calls_append:
  "transport_calls (xs @ ys) = transport_calls xs @ transport_calls ys"
  by (induction xs rule: transport_calls.induct) simp_all

lemma NewRequest_Inr:
  "http_NewRequestWithContext env ctx m url = Inr req0 \<Longrightarrow>
   \<exists>cx. ctx = Some cx \<and> url_Parse env url = None \<and>
        req0 = \<lparr>Ctx = cx, Method = m, URL = url, Header = Map.empty\<rparr>"
  by (auto simp: http_NewRequestWithContext_def split: option.splits)

lemma doRequest_trace:
  assumes "doRequest env c ctx buf prefix st = (out, buf', st')"
  shows "\<exists>evs. trace st' = trace st @ evs \<and>
           (transport_calls evs = [] \<or> (\<exists>cx. transport_calls evs = [range_request c cx prefix]))"
proof (cases "http_NewRequestWithContext env ctx ''GET'' (PwnedPasswordsURL prefix)")
  case (Inl err)
  with assms show ?thesis by (simp add: doRequest_def)
next
  case (Inr req0)
  then obtain cx where req0: "req0 = \<lparr>Ctx = cx, Method = ''GET'', URL = PwnedPasswordsURL prefix,
      Header = Map.empty\<rparr>"
    by (auto dest: NewRequest_Inr)
  define client where "client = (case HTTP c of None \<Rightarrow> DefaultClient env | Some h \<Rightarrow> h)"
  obtain r w where do: "client (range_request c cx prefix) (world st) = (r, w)"
    by (cases "client (range_request c cx prefix) (world st)") auto
  define st1 where "st1 = st\<lparr>world := w, trace := trace st @ [CallDo (range_request c cx prefix)]\<rparr>"
  have call: "call_Do client (range_request c cx prefix) st = (r, st1)"
    by (simp add: call_Do_def do st1_def)
  have step: "st' = st1 \<or> (\<exists>cache a p ss e. Cache c = Some cache \<and> call_Add cache a p ss st1 = (e, st'))"
    using assms Inr req0 call
    by (auto simp: doRequest_def Let_def DefaultUserAgent_def range_request_def client_def
        split: option.splits prod.splits if_splits)
  then show ?thesis
  proof
    assume "st' = st1"
    then show ?thesis
      by (auto simp: st1_def intro!: exI [of _ "[CallDo (range_request c cx prefix)]"])
  next
    assume "\<exists>cache a p ss e. Cache c = Some cache \<and> call_Add cache a p ss st1 = (e, st')"
    then obtain cache a p ss e where "call_Add cache a p ss st1 = (e, st')" by blast
    then have "trace st' = trace st @ [CallDo (range_request c cx prefix), CallAdd a p ss]"
      by (auto simp: call_Add_def st1_def split: prod.splits)
    then show ?thesis
      by (auto intro!: exI [of _ "[CallDo (range_request c cx prefix), CallAdd a p ss]"])
  qed
qed

lemma box_Value_trace:
  assumes "box_Value env c prefix st = (out, c', st')"
  shows "\<exists>evs. trace st' = trace st @ evs \<and>
           (transport_calls evs = [] \<or> (\<exists>cx. transport_calls evs = [range_request c cx prefix]))"
proof (cases "requests c prefix")
  case None
  with assms show ?thesis by (simp add: box_Value_def)
next
  case (Some box)
  show ?thesis
  proof (cases "Value box")
    case (Ran out')
    with assms Some show ?thesis by (simp add: box_Value_def)
  next
    case (NotRun cx)
    obtain o1 b1 s1 where dr: "doRequest env c (Some cx)
        \<lparr>Buffer = buffer box, SuffixesSorted = False, Suffixes = []\<rparr> prefix st = (o1, b1, s1)"
      by (metis prod_cases3)
    with assms Some NotRun have "st' = s1" by (simp add: box_Value_def)
    with doRequest_trace [OF dr] show ?thesis by simp
  qed
qed

lemma doCheck_trace: "doCheck c ctx prefix st = (c', st') \<Longrightarrow> trace st' = trace st"
  by (auto simp: doCheck_def bufferPool_Get_def Let_def split: option.splits list.splits)

lemma doCheck_config:
  "doCheck c ctx prefix st = (c', st') \<Longrightarrow>
   UserAgent c' = UserAgent c \<and> Cache c' = Cache c \<and> HTTP c' = HTTP c"
  by (auto simp: doCheck_def bufferPool_Get_def Let_def split: option.splits list.splits)

lemma doCheck_box:
  "doCheck c ctx prefix st = (c', st') \<Longrightarrow>
   \<forall>box. requests c prefix = Some box \<longrightarrow> OnRelease box \<Longrightarrow>
   \<exists>box. requests c' prefix = Some box \<and> OnRelease box"
  by (auto simp: doCheck_def bufferPool_Get_def Let_def Acquire_def split: option.splits list.splits)

lemma box_Value_box:
  "box_Value env c prefix st = (out, c', st') \<Longrightarrow>
   requests c prefix = Some box \<Longrightarrow> OnRelease box \<Longrightarrow>
   \<exists>box'. requests c' prefix = Some box' \<and> OnRelease box'"
  by (auto simp: box_Value_def split: option.splits once.splits prod.splits)

lemma box_Release_trace: "box_Release c prefix st = (p, c', st') \<Longrightarrow> trace st' = trace st"
  by (auto simp: box_Release_def bufferPool_Put_def split: option.splits prod.splits released.splits)

lemma box_Release_no_panic:
  "requests c prefix = Some box \<Longrightarrow> OnRelease box \<Longrightarrow> fst (box_Release c prefix st) = None"
  by (auto simp: box_Release_def Release_def Let_def split: prod.splits released.splits)

lemma range_request_config:
  "UserAgent c' = UserAgent c \<Longrightarrow> range_request c' cx prefix = range_request c cx prefix"
  by (simp add: range_request_def)

lemma Check_fetch_trace:
  assumes "Check_fetch env c ctx prefix suffix st = (r, c', st')"
  shows "\<exists>evs. trace st' = trace st @ evs \<and>
           (transport_calls evs = [] \<or> (\<exists>cx. transport_calls evs = [range_request c cx prefix]))"
proof -
  obtain c1 st1 where dc: "doCheck c ctx prefix st = (c1, st1)"
    by (cases "doCheck c ctx prefix st") auto
  obtain out c2 st2 where bv: "box_Value env c1 prefix st1 = (out, c2, st2)"
    by (metis prod_cases3)
  obtain p c3 st3 where br: "box_Release c2 prefix st2 = (p, c3, st3)"
    by (metis prod_cases3)
  from assms dc bv br have "st' = st3"
    by (auto simp: Check_fetch_def split: option.splits)
  with box_Release_trace [OF br] doCheck_trace [OF dc] box_Value_trace [OF bv]
    range_request_config [of c1 c] doCheck_config [OF dc]
  show ?thesis by simp
qed

lemma Check_fetch_result:
  assumes "doCheck c ctx prefix st = (c1, st1)"
    and "box_Value env c1 prefix st1 = (out, c2, st2)"
    and "\<forall>box. requests c prefix = Some box \<longrightarrow> OnRelease box"
  shows "fst (Check_fetch env c ctx prefix suffix st) = Check_result out suffix"
proof -
  from doCheck_box [OF assms(1,3)] obtain b1 where "requests c1 prefix = Some b1" "OnRelease b1"
    by blast
  from box_Value_box [OF assms(2) this] obtain b2 where "requests c2 prefix = Some b2" "OnRelease b2"
    by blast
  from box_Release_no_panic [OF this, of st2] assms(1,2) show ?thesis
    by (auto simp: Check_fetch_def split: prod.splits option.splits)
qed

lemma transport_calls_Contains:
  "transport_calls (xs @ [CallContains a p s]) = transport_calls xs"
  by (simp add: transport_calls_append)

lemma Check_trace:
  fixes env :: "'w env" and c :: "'w PwnedClient"
  shows "\<exists>evs. trace (snd (snd (Check env c ctx0 password st))) = trace st @ evs \<and>
           (transport_calls evs = [] \<or>
            (\<exists>cx. transport_calls evs = [range_request c cx (take 5 (hexsum env password))]))"
proof -
  define ctx where "ctx = (case ctx0 of None \<Rightarrow> Background | Some cx \<Rightarrow> cx)"
  define prefix where "prefix = take 5 (hexsum env password)"
  define suffix where "suffix = drop 5 (hexsum env password)"
  have fetch: "\<exists>evs. trace (snd (snd (Check_fetch env c ctx prefix suffix s))) = trace s @ evs \<and>
           (transport_calls evs = [] \<or> (\<exists>cx. transport_calls evs = [range_request c cx prefix]))"
    for s
    using Check_fetch_trace [of env c ctx prefix suffix s] by (metis prod.collapse)
  show ?thesis
  proof (cases "Cache c")
    case None
    with fetch [of st] show ?thesis
      by (simp add: Check_def Let_def ctx_def prefix_def suffix_def)
  next
    case (Some cache)
    obtain b e st1 where cc: "call_Contains cache ctx prefix suffix st = ((b, e), st1)"
      by (metis prod.collapse)
    then have t1: "trace st1 = trace st @ [CallContains ctx prefix suffix]"
      by (auto simp: call_Contains_def split: prod.splits)
    show ?thesis
    proof (cases "e = None \<and> \<not> b")
      case True
      from fetch [of st1] obtain evs where
        "trace (snd (snd (Check_fetch env c ctx prefix suffix st1))) = trace st1 @ evs"
        "transport_calls evs = [] \<or> (\<exists>cx. transport_calls evs = [range_request c cx prefix])"
        by blast
      with t1 True Some cc show ?thesis
        by (intro exI [of _ "CallContains ctx prefix suffix # evs"])
          (simp add: Check_def Let_def ctx_def [symmetric] prefix_def [symmetric] suffix_def [symmetric])
    next
      case False
      with t1 Some cc show ?thesis
        by (intro exI [of _ "[CallContains ctx prefix suffix]"])
          (auto simp: Check_def Let_def ctx_def [symmetric] prefix_def [symmetric]
            suffix_def [symmetric] split: option.splits)
    qed
  qed
qed

subsection \<open>The digest and the range URL\<close>

lemma high_nibble: "unat (drop_bit 4 (v :: 8 word)) < 16"
proof -
  have "unat v < 2 ^ 8" using unsigned_less [of v, where 'a = nat] by simp
  moreover have "unat (drop_bit 4 v) = unat v div 2 ^ 4"
    by (subst unat_drop_bit_eq) (simp add: drop_bit_eq_div)
  ultimately show ?thesis by simp
qed

lemma low_nibble: "unat (and (v :: 8 word) 0x0f) < 16"
proof -
  have "and v 0x0f = take_bit 4 v"
    by (simp add: take_bit_eq_mask mask_eq_exp_minus_1)
  then have "unat (and v 0x0f) = take_bit 4 (unat v)"
    by (simp add: unsigned_take_bit_eq)
  then show ?thesis
    using take_bit_nat_less_exp [of 4 "unat v"] by simp
qed

lemma nibble_cases:
  "(n::nat) < 16 \<Longrightarrow> n = 0 \<or> n = 1 \<or> n = 2 \<or> n = 3 \<or> n = 4 \<or> n = 5 \<or> n = 6 \<or> n = 7
    \<or> n = 8 \<or> n = 9 \<or> n = 10 \<or> n = 11 \<or> n = 12 \<or> n = 13 \<or> n = 14 \<or> n = 15"
  by arith

lemma upper_hextable:
  assumes "n < 16"
  shows "is_hex_upper (hd (strings_ToUpper [hextable ! n]))"
  using nibble_cases [OF assms]
  by (elim disjE) (simp_all add: hextable_def strings_ToUpper_def is_hex_upper_def)

lemma hexsum_length: "length (hexsum env password) = 40"
proof -
  have "length (hex_EncodeToString src) = 2 * length src" for src
    by (induction src) (simp_all add: hex_EncodeToString_def)
  then show ?thesis
    by (simp add: hexsum_def strings_ToUpper_def sum_bytes_def)
qed

lemma hexsum_upper: "list_all is_hex_upper (hexsum env password)"
proof -
  have "list_all is_hex_upper (strings_ToUpper (hex_EncodeToString src))" for src
  proof (induction src)
    case Nil
    show ?case by (simp add: hex_EncodeToString_def strings_ToUpper_def)
  next
    case (Cons v src)
    from upper_hextable [OF high_nibble [of v]] upper_hextable [OF low_nibble [of v]] Cons
    show ?case by (simp add: hex_EncodeToString_def strings_ToUpper_def)
  qed
  then show ?thesis by (simp add: hexsum_def)
qed

lemma URL_has_no_suffix:
  assumes "length suffix = 35" and "list_all is_hex_upper suffix"
  shows "\<not> (\<exists>ps ss. PwnedPasswordsURL prefix = ps @ suffix @ ss \<and> length prefix = 5)"
proof
  assume "\<exists>ps ss. PwnedPasswordsURL prefix = ps @ suffix @ ss \<and> length prefix = 5"
  then obtain ps ss where eq: "PwnedPasswordsURL prefix = ps @ suffix @ ss" and l: "length prefix = 5"
    by blast
  from eq have "length (PwnedPasswordsURL prefix) = length ps + length suffix + length ss"
    by simp
  with l assms(1) have ps: "length ps \<le> 7"
    by (simp add: PwnedPasswordsURL_def)
  have "PwnedPasswordsURL prefix ! 8 = CHR ''a''"
    by (simp add: PwnedPasswordsURL_def)
  moreover from ps assms(1) have "(ps @ suffix @ ss) ! 8 = suffix ! (8 - length ps)"
    by (auto simp: nth_append)
  moreover from ps assms have "is_hex_upper (suffix ! (8 - length ps))"
    by (simp add: list_all_length)
  ultimately show False
    using eq by (simp add: is_hex_upper_def)
qed

subsection \<open>The test collaborators, evaluated\<close>

lemma test_hexsum: "hexsum test_env password = ''E38AD214943DAAD1D64C102FAEC29DE4AFE9DA3D''"
  by (simp add: hexsum_def test_env_def sum_bytes_def hex_EncodeToString_def hextable_def
      strings_ToUpper_def upt_rec)

lemmas test_defs =
  test_state_def test_client_def test_transport_def test_response_def test_cache_def test_body_def

lemma test_env_sel:
  "url_Parse test_env url = None"
  "DefaultClient test_env = (\<lambda>req w. ((None, Some (External ''no network'')), w))"
  by (simp_all add: test_env_def)

lemma test_Check_bad_request:
  "Check test_env (test_client None (test_transport 400 ''Bad Request'')) None ''password1'' test_state =
     (CheckReturn False (Some (ErrorUnexpectedResponse (test_response 400 ''Bad Request''))),
      test_client None (test_transport 400 ''Bad Request''),
      \<lparr>world = (),
       trace = [CallDo (range_request (test_client None (test_transport 400 ''Bad Request''))
                  Background ''E38AD'')],
       bufferPool = [Nil]\<rparr>)"
  by (simp add: Check_def Check_fetch_def doCheck_def box_Value_def box_Release_def Release_def
      Acquire_def doRequest_def http_NewRequestWithContext_def call_Do_def bufferPool_Get_def
      bufferPool_Put_def releaseRequest_def Check_result_def range_request_def
      PwnedPasswordsURL_def DefaultUserAgent_def Let_def test_hexsum test_env_sel test_defs)

subsection \<open>From the outcome of the box to the result of Check\<close>

lemma Check_outcome_result:
  fixes env :: "'w env" and c :: "'w PwnedClient"
  assumes "Check_outcome env c ctx0 password st = Some out"
    and "\<forall>box. requests c (take 5 (hexsum env password)) = Some box \<longrightarrow> OnRelease box"
  shows "fst (Check env c ctx0 password st) = Check_result out (drop 5 (hexsum env password))"
proof -
  define ctx where "ctx = (case ctx0 of None \<Rightarrow> Background | Some cx \<Rightarrow> cx)"
  define prefix where "prefix = take 5 (hexsum env password)"
  define suffix where "suffix = drop 5 (hexsum env password)"
  have fetch: "fst (Check_fetch env c ctx prefix suffix s) =
      Check_result (fetch_outcome env c ctx prefix s) suffix" for s
  proof -
    obtain c1 st1 where dc: "doCheck c ctx prefix s = (c1, st1)"
      by (cases "doCheck c ctx prefix s") auto
    obtain o1 c2 st2 where bv: "box_Value env c1 prefix st1 = (o1, c2, st2)"
      by (metis prod_cases3)
    from Check_fetch_result [OF dc bv] assms(2) dc bv show ?thesis
      by (simp add: fetch_outcome_def prefix_def)
  qed
  from assms(1) show ?thesis
    by (auto simp: Check_outcome_def Check_def Let_def fetch ctx_def [symmetric]
        prefix_def [symmetric] suffix_def [symmetric] split: option.splits prod.splits if_splits)
qed

lemma Check_at_most_one_call:
  fixes env :: "'w env" and c :: "'w PwnedClient"
  shows "length (transport_calls (trace (snd (snd (Check env c ctx0 password st)))))
           \<le> length (transport_calls (trace st)) + 1"
  using Check_trace [of env c ctx0 password st]
  by (auto simp: transport_calls_append)

subsection \<open>The boxes of the table keep their OnRelease\<close>

text \<open>
  Every box that \<^verbatim>\<open>doCheck\<close> makes has its \<^verbatim>\<open>OnRelease\<close>, and \<^verbatim>\<open>Release\<close> sets it to nil
  only as the box leaves the table. So in every state that calls of \<^verbatim>\<open>Check\<close> reach from
  a client without requests, the boxes of the table have it.
\<close>

lemma doCheck_keeps_OnRelease:
  "doCheck c ctx prefix st = (c', st') \<Longrightarrow>
   \<forall>p box. requests c p = Some box \<longrightarrow> OnRelease box \<Longrightarrow>
   \<forall>p box. requests c' p = Some box \<longrightarrow> OnRelease box"
  by (auto simp: doCheck_def bufferPool_Get_def Let_def Acquire_def split: option.splits list.splits if_splits)

lemma box_Value_keeps_OnRelease:
  "box_Value env c prefix st = (out, c', st') \<Longrightarrow>
   \<forall>p box. requests c p = Some box \<longrightarrow> OnRelease box \<Longrightarrow>
   \<forall>p box. requests c' p = Some box \<longrightarrow> OnRelease box"
  by (auto simp: box_Value_def split: option.splits once.splits prod.splits if_splits)

lemma box_Release_keeps_OnRelease:
  "box_Release c prefix st = (p, c', st') \<Longrightarrow>
   \<forall>p box. requests c p = Some box \<longrightarrow> OnRelease box \<Longrightarrow>
   \<forall>p box. requests c' p = Some box \<longrightarrow> OnRelease box"
  by (auto simp: box_Release_def Release_def releaseRequest_def Let_def
      split: option.splits prod.splits released.splits if_splits)

lemma Check_fetch_keeps_OnRelease:
  assumes "Check_fetch env c ctx prefix suffix st = (r, c', st')"
    and "\<forall>p box. requests c p = Some box \<longrightarrow> OnRelease box"
  shows "\<forall>p box. requests c' p = Some box \<longrightarrow> OnRelease box"
proof -
  obtain c1 st1 where dc: "doCheck c ctx prefix st = (c1, st1)"
    by (cases "doCheck c ctx prefix st") auto
  obtain out c2 st2 where bv: "box_Value env c1 prefix st1 = (out, c2, st2)"
    by (metis prod_cases3)
  obtain p c3 st3 where br: "box_Release c2 prefix st2 = (p, c3, st3)"
    by (metis prod_cases3)
  from assms(1) dc bv br have "c' = c3"
    by (auto simp: Check_fetch_def split: option.splits)
  with box_Release_keeps_OnRelease [OF br box_Value_keeps_OnRelease [OF bv
        doCheck_keeps_OnRelease [OF dc assms(2)]]]
  show ?thesis by simp
qed

lemma Check_keeps_OnRelease:
  fixes env :: "'w env" and c :: "'w PwnedClient"
  assumes "\<forall>p box. requests c p = Some box \<longrightarrow> OnRelease box"
  shows "\<forall>p box. requests (fst (snd (Check env c ctx0 password st))) p = Some box \<longrightarrow> OnRelease box"
proof -
  have fetch: "\<forall>p box. requests (fst (snd (Check_fetch env c ctx prefix suffix s))) p = Some box
      \<longrightarrow> OnRelease box" for ctx prefix suffix s
    using Check_fetch_keeps_OnRelease [OF _ assms, of env ctx prefix suffix s]
    by (metis prod.collapse)
  show ?thesis
    using assms fetch
    by (auto simp: Check_def Let_def split: option.splits prod.splits)
qed

subsection \<open>A fetch that Check starts itself\<close>

text \<open>
  What \<^verbatim>\<open>doRequest\<close> does when the request is made, the transport answers 200 and the
  body is read to its end; and \<^verbatim>\<open>Check\<close> on a table that has no box for the prefix, where
  the call makes the box, runs \<^verbatim>\<open>doRequest\<close> and releases the box again.
\<close>

lemma doRequest_status_ok:
  fixes env :: "'w env" and c :: "'w PwnedClient"
  assumes "url_Parse env (PwnedPasswordsURL prefix) = None"
    and "(case HTTP c of None \<Rightarrow> DefaultClient env | Some h \<Rightarrow> h)
           (range_request c cx prefix) (world st) = ((Some res, None), w1)"
    and "StatusCode res = 200"
    and "body_read (Body res) = (bs, None)"
    and "buf1 = Parse (buf\<lparr>Buffer := Buffer buf @ bs\<rparr>)"
    and "st1 = st\<lparr>world := w1, trace := trace st @ [CallDo (range_request c cx prefix)]\<rparr>"
  shows "(Cache c = None \<or> Suffixes buf1 = [] \<longrightarrow>
            doRequest env c (Some cx) buf prefix st =
              (Returned (Some (res\<lparr>Body := ResultBody buf1\<rparr>)) None, buf1, st1))
       \<and> (\<forall>cache aerr w2. Cache c = Some cache \<and> Suffixes buf1 \<noteq> [] \<and>
              Add cache cx prefix (Suffixes buf1) w1 = (aerr, w2) \<longrightarrow>
            doRequest env c (Some cx) buf prefix st =
              (case aerr of
                 Some err \<Rightarrow> Returned (Some res) (Some err)
               | None \<Rightarrow> Returned (Some (res\<lparr>Body := ResultBody buf1\<rparr>)) None,
               buf1,
               st1\<lparr>world := w2, trace := trace st1 @ [CallAdd cx prefix (Suffixes buf1)]\<rparr>)
            \<and> (\<forall>err suffix. aerr = Some err \<longrightarrow>
                  Check_result (fst (doRequest env c (Some cx) buf prefix st)) suffix =
                    CheckReturn False (Some err)))"
proof -
  have req: "http_NewRequestWithContext env (Some cx) ''GET'' (PwnedPasswordsURL prefix) =
      Inr \<lparr>Ctx = cx, Method = ''GET'', URL = PwnedPasswordsURL prefix, Header = Map.empty\<rparr>"
    using assms(1) by (simp add: http_NewRequestWithContext_def)
  have do: "call_Do (case HTTP c of None \<Rightarrow> DefaultClient env | Some h \<Rightarrow> h)
      (range_request c cx prefix) st = ((Some res, None), st1)"
    using assms(2) by (simp add: call_Do_def assms(6))
  have dr: "doRequest env c (Some cx) buf prefix st =
      (case Cache c of
         None \<Rightarrow> (Returned (Some (res\<lparr>Body := ResultBody buf1\<rparr>)) None, buf1, st1)
       | Some cache \<Rightarrow>
           if length (Suffixes buf1) > 0 then
             (case call_Add cache cx prefix (Suffixes buf1) st1 of
                (Some err, st2) \<Rightarrow> (Returned (Some res) (Some err), buf1, st2)
              | (None, st2) \<Rightarrow> (Returned (Some (res\<lparr>Body := ResultBody buf1\<rparr>)) None, buf1, st2))
           else (Returned (Some (res\<lparr>Body := ResultBody buf1\<rparr>)) None, buf1, st1))"
  proof (cases "UserAgent c = []")
    case True
    with do assms(3,4) show ?thesis
      by (simp add: doRequest_def req Let_def DefaultUserAgent_def assms(5) range_request_def
          split: option.splits prod.splits)
  next
    case False
    with do assms(3,4) show ?thesis
      by (simp add: doRequest_def req Let_def DefaultUserAgent_def assms(5) range_request_def
          split: option.splits prod.splits)
  qed
  show ?thesis
    unfolding dr
    by (auto simp: call_Add_def assms(6) Check_result_def split: option.splits)
qed

lemma doRequest_config:
  assumes "UserAgent c' = UserAgent c" and "Cache c' = Cache c" and "HTTP c' = HTTP c"
  shows "doRequest env c' ctx buf prefix st = doRequest env c ctx buf prefix st"
  unfolding doRequest_def assms by (rule refl)

lemma doCheck_fresh:
  fixes env :: "'w env" and c :: "'w PwnedClient"
  assumes "requests c prefix = None"
    and "bufferPool_Get st = (b, stp)"
  shows "doCheck c ctx prefix st = (c\<lparr>requests := (requests c)(prefix \<mapsto> \<lparr>Refcount = 1, OnRelease = True, Value = NotRun ctx, buffer = b\<rparr>)\<rparr>, stp)"
    using assms(1,2) by (simp add: doCheck_def Acquire_def)

lemma box_Release_last:
  fixes c :: "'w PwnedClient"
  assumes "requests c prefix = None"
  shows "box_Release
      (c\<lparr>requests := (requests c)(prefix \<mapsto> \<lparr>Refcount = 1, OnRelease = True, Value = Ran out, buffer = bb\<rparr>)\<rparr>)
      prefix st2 = (None, c, bufferPool_Put bb st2)"
proof -
  have "(requests c)(prefix := None) = requests c"
    using assms by (rule fun_upd_idem)
  then show ?thesis
    by (simp add: box_Release_def Release_def releaseRequest_def Let_def)
qed

lemma Check_fetch_fresh:
  fixes env :: "'w env" and c :: "'w PwnedClient"
  assumes "requests c prefix = None"
    and "bufferPool_Get st = (b, stp)"
    and "doRequest env c (Some ctx) \<lparr>Buffer = b, SuffixesSorted = False, Suffixes = []\<rparr> prefix stp =
           (out, buf, st2)"
  shows "Check_fetch env c ctx prefix suffix st =
           (Check_result out suffix, c, bufferPool_Put (Buffer buf) st2)"
proof -
  define c1 where "c1 = c\<lparr>requests := (requests c)(prefix \<mapsto>
      \<lparr>Refcount = 1, OnRelease = True, Value = NotRun ctx, buffer = b\<rparr>)\<rparr>"
  define c2 where "c2 = c\<lparr>requests := (requests c)(prefix \<mapsto>
      \<lparr>Refcount = 1, OnRelease = True, Value = Ran out, buffer = Buffer buf\<rparr>)\<rparr>"
  have dc: "doCheck c ctx prefix st = (c1, stp)"
    unfolding c1_def by (rule doCheck_fresh [OF assms(1,2)])
  have "doRequest env c1 (Some ctx) \<lparr>Buffer = b, SuffixesSorted = False, Suffixes = []\<rparr>
      prefix stp = doRequest env c (Some ctx) \<lparr>Buffer = b, SuffixesSorted = False, Suffixes = []\<rparr>
      prefix stp"
    by (rule doRequest_config) (simp_all add: c1_def)
  with assms(3) have dr: "doRequest env c1 (Some ctx)
      \<lparr>Buffer = b, SuffixesSorted = False, Suffixes = []\<rparr> prefix stp = (out, buf, st2)"
    by simp
  have bv: "box_Value env c1 prefix stp = (out, c2, st2)"
  proof -
    have look: "requests c1 prefix =
        Some \<lparr>Refcount = 1, OnRelease = True, Value = NotRun ctx, buffer = b\<rparr>"
      by (simp add: c1_def)
    have upd: "c1\<lparr>requests := (requests c1)(prefix \<mapsto>
        \<lparr>Refcount = 1, OnRelease = True, Value = Ran out, buffer = Buffer buf\<rparr>)\<rparr> = c2"
      by (simp add: c1_def c2_def)
    show ?thesis
      unfolding box_Value_def look by (simp add: dr upd)
  qed
  have br: "box_Release c2 prefix st2 = (None, c, bufferPool_Put (Buffer buf) st2)"
    unfolding c2_def by (rule box_Release_last [OF assms(1)])
  show ?thesis
    by (simp add: Check_fetch_def dc bv br)
qed

lemma bufferPool_Get_same:
  "bufferPool_Get st = (b, stp) \<Longrightarrow> world stp = world st \<and> trace stp = trace st"
  by (auto simp: bufferPool_Get_def split: list.splits)

lemma Check_miss:
  fixes env :: "'w env" and c :: "'w PwnedClient"
  assumes "Cache c = None \<longrightarrow> st0 = st"
    and "\<forall>cache. Cache c = Some cache \<longrightarrow>
           call_Contains cache (case ctx0 of None \<Rightarrow> Background | Some cx \<Rightarrow> cx)
             (take 5 (hexsum env password)) (drop 5 (hexsum env password)) st = ((False, None), st0)"
  shows "Check env c ctx0 password st =
           Check_fetch env c (case ctx0 of None \<Rightarrow> Background | Some cx \<Rightarrow> cx)
             (take 5 (hexsum env password)) (drop 5 (hexsum env password)) st0"
proof (cases "Cache c")
  case None
  with assms(1) show ?thesis by (simp add: Check_def Let_def)
next
  case (Some cache)
  with assms(2) show ?thesis by (simp add: Check_def Let_def)
qed


lemma test_Parse_body:
  "Parse \<lparr>Buffer = test_body, SuffixesSorted = False, Suffixes = []\<rparr> =
     \<lparr>Buffer = [], SuffixesSorted = True, Suffixes = [''214943DAAD1D64C102FAEC29DE4AFE9DA3D'']\<rparr>"
  by code_simp

lemma test_Lookup_body:
  "Lookup \<lparr>Buffer = [], SuffixesSorted = True, Suffixes = [''214943DAAD1D64C102FAEC29DE4AFE9DA3D'']\<rparr>
     ''214943DAAD1D64C102FAEC29DE4AFE9DA3D''"
  by code_simp


subsection \<open>The holders of one box\<close>










text \<open>
  Two holders of which the second acquires after the first has released do not overlap,
  and each of them starts a request.
\<close>

lemma sequential_holders_two_requests:
  "\<not> overlapping 0 [Acq Background, Val, Rel, Acq (Context 1), Val, Rel]
   \<and> length (transport_calls (trace (snd (interleaving test_env ''E38AD''
        [Acq Background, Val, Rel, Acq (Context 1), Val, Rel]
        (test_client None (test_transport 400 ''Bad Request''), test_state))))) = 2"
  by code_simp

section \<open>The claims about Check and doRequest\<close>

text \<open>
  Claim C5. For every password, \<^verbatim>\<open>Check\<close> builds the request from the first 5 characters
  of the upper-case hexadecimal SHA-1 digest only: the digest has 40 upper-case
  hexadecimal characters, every request that the call hands to the transport is the
  \<^verbatim>\<open>GET\<close> of the range URL of the 5-character prefix with the client's \<^verbatim>\<open>User-Agent\<close> and
  nothing else, and the 35-character suffix occurs nowhere in that URL.
\<close>

theorem Check_sends_prefix_only:
  fixes env :: "'w env" and c :: "'w PwnedClient"
  shows "length (hexsum env password) = 40 \<and> list_all is_hex_upper (hexsum env password)
    \<and> (\<exists>evs. trace (snd (snd (Check env c ctx0 password st))) = trace st @ evs
          \<and> (\<forall>req\<in>set (transport_calls evs).
                \<exists>cx. req = range_request c cx (take 5 (hexsum env password))))
    \<and> \<not> (\<exists>ps ss. PwnedPasswordsURL (take 5 (hexsum env password)) =
                    ps @ drop 5 (hexsum env password) @ ss)"
proof (intro conjI)
  show "length (hexsum env password) = 40"
    by (rule hexsum_length)
  show "list_all is_hex_upper (hexsum env password)"
    by (rule hexsum_upper)
  from Check_trace [of env c ctx0 password st]
  show "\<exists>evs. trace (snd (snd (Check env c ctx0 password st))) = trace st @ evs
          \<and> (\<forall>req\<in>set (transport_calls evs).
                \<exists>cx. req = range_request c cx (take 5 (hexsum env password)))"
    by (elim exE conjE disjE) (rule exI, force)+
  have "length (drop 5 (hexsum env password)) = 35"
    by (simp add: hexsum_length)
  moreover have "list_all is_hex_upper (drop 5 (hexsum env password))"
    using hexsum_upper [of env password] by (auto simp: list_all_iff dest: in_set_dropD)
  moreover have "length (take 5 (hexsum env password)) = 5"
    by (simp add: hexsum_length)
  ultimately show "\<not> (\<exists>ps ss. PwnedPasswordsURL (take 5 (hexsum env password)) =
                    ps @ drop 5 (hexsum env password) @ ss)"
    using URL_has_no_suffix [of "drop 5 (hexsum env password)" "take 5 (hexsum env password)"]
    by blast
qed

text \<open>The theorem at the password of the tests, where one request is sent.\<close>

theorem Check_sends_prefix_only_witness:
  "transport_calls (trace (snd (snd (Check test_env
      (test_client None (test_transport 400 ''Bad Request'')) None ''password1'' test_state)))) =
     [range_request (test_client None (test_transport 400 ''Bad Request'')) Background ''E38AD'']
   \<and> URL (range_request (test_client None (test_transport 400 ''Bad Request'')) Background ''E38AD'') =
       ''https://api.pwnedpasswords.com/range/E38AD''
   \<and> drop 5 (hexsum test_env ''password1'') = ''214943DAAD1D64C102FAEC29DE4AFE9DA3D''"
  using Check_sends_prefix_only [of test_env "''password1''"
      "test_client None (test_transport 400 ''Bad Request'')" None test_state]
  by (simp add: test_Check_bad_request test_hexsum range_request_def PwnedPasswordsURL_def)

text \<open>
  Claim C6. For every call of \<^verbatim>\<open>Check\<close> in which the network computation, the value of the
  box, succeeds with a response whose status is not 200, \<^verbatim>\<open>Check\<close> returns \<^verbatim>\<open>false\<close> and an
  \<^verbatim>\<open>ErrorUnexpectedResponse\<close> that carries this response, and nothing is retried: the call
  hands at most one request to the transport. The box of the prefix, if the table has
  one, has its \<^verbatim>\<open>OnRelease\<close>, as every box of a table that calls of \<^verbatim>\<open>Check\<close> have
  made.
\<close>

theorem Check_unexpected_response:
  fixes env :: "'w env" and c :: "'w PwnedClient"
  assumes "Check_outcome env c ctx0 password st = Some (Returned (Some res) None)"
    and "StatusCode res \<noteq> 200"
    and "\<forall>box. requests c (take 5 (hexsum env password)) = Some box \<longrightarrow> OnRelease box"
  shows "fst (Check env c ctx0 password st) = CheckReturn False (Some (ErrorUnexpectedResponse res))
       \<and> length (transport_calls (trace (snd (snd (Check env c ctx0 password st)))))
           \<le> length (transport_calls (trace st)) + 1"
  using Check_outcome_result [OF assms(1,3)] assms(2) Check_at_most_one_call [of env c ctx0 password st]
  by (simp add: Check_result_def)

text \<open>The theorem at the transport of \<^verbatim>\<open>TestErrorUnexpectedResponse\<close>, which answers 400.\<close>

theorem Check_unexpected_response_witness:
  "Check_outcome test_env (test_client None (test_transport 400 ''Bad Request'')) None
      ''password1'' test_state = Some (Returned (Some (test_response 400 ''Bad Request'')) None)
   \<and> fst (Check test_env (test_client None (test_transport 400 ''Bad Request'')) None
        ''password1'' test_state) =
       CheckReturn False (Some (ErrorUnexpectedResponse (test_response 400 ''Bad Request'')))
   \<and> length (transport_calls (trace (snd (snd (Check test_env
        (test_client None (test_transport 400 ''Bad Request'')) None ''password1'' test_state))))) = 1"
proof -
  let ?c = "test_client None (test_transport 400 ''Bad Request'')"
  have out: "Check_outcome test_env ?c None ''password1'' test_state =
      Some (Returned (Some (test_response 400 ''Bad Request'')) None)"
    by (simp add: Check_outcome_def fetch_outcome_def doCheck_def box_Value_def Acquire_def
        doRequest_def http_NewRequestWithContext_def call_Do_def bufferPool_Get_def
        PwnedPasswordsURL_def DefaultUserAgent_def Let_def test_hexsum test_env_sel test_defs)
  have code: "StatusCode (test_response 400 ''Bad Request'') \<noteq> 200"
    by (simp add: test_response_def)
  have boxes: "\<forall>box. requests ?c (take 5 (hexsum test_env ''password1'')) = Some box \<longrightarrow> OnRelease box"
    by (simp add: test_client_def)
  from Check_unexpected_response [OF out code boxes] out show ?thesis
    by (simp add: test_Check_bad_request)
qed

text \<open>
  Claim C7. For every call of \<^verbatim>\<open>Check\<close> with a cache, if \<^verbatim>\<open>Cache.Contains\<close> returns an
  error that is not nil, \<^verbatim>\<open>Check\<close> returns that error at once and there is no network
  activity: the call to \<^verbatim>\<open>Contains\<close> is the only call to a collaborator, the transport is
  not invoked, and no request enters the table.
\<close>

theorem Check_cache_error_fails_closed:
  fixes env :: "'w env" and c :: "'w PwnedClient"
  assumes "Cache c = Some cache"
    and "Contains cache (case ctx0 of None \<Rightarrow> Background | Some cx \<Rightarrow> cx)
           (take 5 (hexsum env password)) (drop 5 (hexsum env password)) (world st) = ((b, Some e), w)"
  shows "fst (Check env c ctx0 password st) = CheckReturn b (Some e)
       \<and> trace (snd (snd (Check env c ctx0 password st))) =
           trace st @ [CallContains (case ctx0 of None \<Rightarrow> Background | Some cx \<Rightarrow> cx)
                         (take 5 (hexsum env password)) (drop 5 (hexsum env password))]
       \<and> transport_calls (trace (snd (snd (Check env c ctx0 password st)))) =
           transport_calls (trace st)
       \<and> requests (fst (snd (Check env c ctx0 password st))) = requests c"
  using assms by (simp add: Check_def call_Contains_def Let_def transport_calls_Contains)

text \<open>The theorem at a cache that fails, as the second call of \<^verbatim>\<open>TestPwnedCacheWithError\<close>.\<close>

theorem Check_cache_error_fails_closed_witness:
  "fst (Check test_env
      (test_client (Some (test_cache (False, Some (External ''context canceled'')) None))
         (test_transport 200 test_body))
      None ''password1'' test_state) = CheckReturn False (Some (External ''context canceled''))
   \<and> trace (snd (snd (Check test_env
      (test_client (Some (test_cache (False, Some (External ''context canceled'')) None))
         (test_transport 200 test_body))
      None ''password1'' test_state))) =
       [CallContains Background ''E38AD'' ''214943DAAD1D64C102FAEC29DE4AFE9DA3D'']
   \<and> transport_calls (trace (snd (snd (Check test_env
      (test_client (Some (test_cache (False, Some (External ''context canceled'')) None))
         (test_transport 200 test_body))
      None ''password1'' test_state)))) = []"
proof -
  let ?cache = "test_cache (False, Some (External ''context canceled'')) None"
  let ?c = "test_client (Some ?cache) (test_transport 200 test_body)"
  have cache: "Cache ?c = Some ?cache"
    by (simp add: test_client_def)
  have err: "Contains ?cache (case None of None \<Rightarrow> Background | Some cx \<Rightarrow> cx)
      (take 5 (hexsum test_env ''password1'')) (drop 5 (hexsum test_env ''password1''))
      (world test_state) = ((False, Some (External ''context canceled'')), ())"
    by (simp add: test_cache_def)
  from Check_cache_error_fails_closed [OF cache err] show ?thesis
    by (auto simp: test_state_def test_hexsum)
qed

text \<open>
  Claim C8. For every call of \<^verbatim>\<open>Check\<close> with a cache, if \<^verbatim>\<open>Cache.Contains\<close> returns
  \<^verbatim>\<open>(true, nil)\<close>, \<^verbatim>\<open>Check\<close> returns \<^verbatim>\<open>(true, nil)\<close> and no network request is made: the
  call to \<^verbatim>\<open>Contains\<close> is the only call to a collaborator.
\<close>

theorem Check_cache_hit:
  fixes env :: "'w env" and c :: "'w PwnedClient"
  assumes "Cache c = Some cache"
    and "Contains cache (case ctx0 of None \<Rightarrow> Background | Some cx \<Rightarrow> cx)
           (take 5 (hexsum env password)) (drop 5 (hexsum env password)) (world st) = ((True, None), w)"
  shows "fst (Check env c ctx0 password st) = CheckReturn True None
       \<and> trace (snd (snd (Check env c ctx0 password st))) =
           trace st @ [CallContains (case ctx0 of None \<Rightarrow> Background | Some cx \<Rightarrow> cx)
                         (take 5 (hexsum env password)) (drop 5 (hexsum env password))]
       \<and> transport_calls (trace (snd (snd (Check env c ctx0 password st)))) =
           transport_calls (trace st)
       \<and> requests (fst (snd (Check env c ctx0 password st))) = requests c"
  using assms by (simp add: Check_def call_Contains_def Let_def transport_calls_Contains)

text \<open>The theorem at a cache that holds the suffix.\<close>

theorem Check_cache_hit_witness:
  "fst (Check test_env
      (test_client (Some (test_cache (True, None) None)) (test_transport 200 test_body))
      None ''password1'' test_state) = CheckReturn True None
   \<and> trace (snd (snd (Check test_env
      (test_client (Some (test_cache (True, None) None)) (test_transport 200 test_body))
      None ''password1'' test_state))) =
       [CallContains Background ''E38AD'' ''214943DAAD1D64C102FAEC29DE4AFE9DA3D'']
   \<and> transport_calls (trace (snd (snd (Check test_env
      (test_client (Some (test_cache (True, None) None)) (test_transport 200 test_body))
      None ''password1'' test_state)))) = []"
  using Check_cache_hit [of
      "test_client (Some (test_cache (True, None) None)) (test_transport 200 test_body)"
      "test_cache (True, None) None" None test_env "''password1''" test_state "()"]
  by (simp add: test_client_def test_cache_def test_state_def test_hexsum)

text \<open>
  Claim C9. For every fetch that completes with status 200 (\<^verbatim>\<open>Check\<close> misses the cache
  or has none, starts the request for the prefix itself, the transport answers 200
  without an error and the body is read to its end): with a cache and at least one parsed
  suffix, \<^verbatim>\<open>Cache.Add\<close> is invoked once, after the request and before \<^verbatim>\<open>Check\<close> returns,
  with the prefix and all the parsed suffixes, and an error of \<^verbatim>\<open>Add\<close> is the error that
  \<^verbatim>\<open>Check\<close> returns, with \<^verbatim>\<open>false\<close>; without a cache, or with no parsed suffix, \<^verbatim>\<open>Add\<close> is
  not invoked. When no error is returned the result is \<^verbatim>\<open>Lookup\<close> on the parsed buffer.
\<close>

theorem Check_populates_cache:
  fixes env :: "'w env" and c :: "'w PwnedClient"
  assumes "ctx = (case ctx0 of None \<Rightarrow> Background | Some cx \<Rightarrow> cx)"
    and "prefix = take 5 (hexsum env password)"
    and "suffix = drop 5 (hexsum env password)"
    and "Cache c = None \<longrightarrow> st0 = st"
    and "\<forall>cache. Cache c = Some cache \<longrightarrow>
           call_Contains cache ctx prefix suffix st = ((False, None), st0)"
    and "requests c prefix = None"
    and "bufferPool_Get st0 = (b, stp)"
    and "url_Parse env (PwnedPasswordsURL prefix) = None"
    and "(case HTTP c of None \<Rightarrow> DefaultClient env | Some h \<Rightarrow> h)
           (range_request c ctx prefix) (world st0) = ((Some res, None), w1)"
    and "StatusCode res = 200"
    and "body_read (Body res) = (bs, None)"
    and "buf1 = Parse \<lparr>Buffer = b @ bs, SuffixesSorted = False, Suffixes = []\<rparr>"
  shows "(Cache c = None \<or> Suffixes buf1 = [] \<longrightarrow>
            fst (Check env c ctx0 password st) = CheckReturn (Lookup buf1 suffix) None
            \<and> trace (snd (snd (Check env c ctx0 password st))) =
                trace st0 @ [CallDo (range_request c ctx prefix)])
       \<and> (\<forall>cache aerr w2. Cache c = Some cache \<and> Suffixes buf1 \<noteq> [] \<and>
              Add cache ctx prefix (Suffixes buf1) w1 = (aerr, w2) \<longrightarrow>
            trace (snd (snd (Check env c ctx0 password st))) =
              trace st0 @ [CallDo (range_request c ctx prefix),
                           CallAdd ctx prefix (Suffixes buf1)]
            \<and> fst (Check env c ctx0 password st) =
                (case aerr of
                   Some err \<Rightarrow> CheckReturn False (Some err)
                 | None \<Rightarrow> CheckReturn (Lookup buf1 suffix) None))"
proof -
  let ?buf = "\<lparr>Buffer = b, SuffixesSorted = False, Suffixes = []\<rparr>"
  define st1 where "st1 = stp\<lparr>world := w1, trace := trace stp @ [CallDo (range_request c ctx prefix)]\<rparr>"
  from bufferPool_Get_same [OF assms(7)] have same: "world stp = world st0" "trace stp = trace st0"
    by simp_all
  have do: "(case HTTP c of None \<Rightarrow> DefaultClient env | Some h \<Rightarrow> h)
      (range_request c ctx prefix) (world stp) = ((Some res, None), w1)"
    using assms(9) same by simp
  have b1: "buf1 = Parse (?buf\<lparr>Buffer := Buffer ?buf @ bs\<rparr>)"
    using assms(12) by simp
  note dr = doRequest_status_ok [OF assms(8) do assms(10,11) b1 st1_def]
  obtain out buf st2 where run: "doRequest env c (Some ctx) ?buf prefix stp = (out, buf, st2)"
    by (metis prod_cases3)
  have check: "Check env c ctx0 password st =
      (Check_result out suffix, c, bufferPool_Put (Buffer buf) st2)"
    using Check_miss [of c st0 st ctx0 env password] assms(4,5)
      Check_fetch_fresh [OF assms(6,7) run, of suffix]
    by (simp add: assms(1,2,3))
  have tr: "trace (bufferPool_Put x s) = trace s" for x and s :: "'w state"
    by (simp add: bufferPool_Put_def)
  show ?thesis
  proof (intro conjI allI impI)
    assume a: "Cache c = None \<or> Suffixes buf1 = []"
    with dr run have eq: "out = Returned (Some (res\<lparr>Body := ResultBody buf1\<rparr>)) None" "st2 = st1"
      by simp_all
    from eq assms(10) show "fst (Check env c ctx0 password st) = CheckReturn (Lookup buf1 suffix) None"
      by (simp add: check Check_result_def)
    from eq show "trace (snd (snd (Check env c ctx0 password st))) =
        trace st0 @ [CallDo (range_request c ctx prefix)]"
      by (simp add: check tr st1_def same)
  next
    fix cache aerr w2
    assume a: "Cache c = Some cache \<and> Suffixes buf1 \<noteq> [] \<and>
        Add cache ctx prefix (Suffixes buf1) w1 = (aerr, w2)"
    with dr run have eq:
      "out = (case aerr of Some err \<Rightarrow> Returned (Some res) (Some err)
              | None \<Rightarrow> Returned (Some (res\<lparr>Body := ResultBody buf1\<rparr>)) None)"
      "st2 = st1\<lparr>world := w2, trace := trace st1 @ [CallAdd ctx prefix (Suffixes buf1)]\<rparr>"
      by simp_all
    from eq(2) show "trace (snd (snd (Check env c ctx0 password st))) =
        trace st0 @ [CallDo (range_request c ctx prefix), CallAdd ctx prefix (Suffixes buf1)]"
      by (simp add: check tr st1_def same)
    from eq(1) assms(10) show "fst (Check env c ctx0 password st) =
        (case aerr of Some err \<Rightarrow> CheckReturn False (Some err)
         | None \<Rightarrow> CheckReturn (Lookup buf1 suffix) None)"
      by (cases aerr) (simp_all add: check Check_result_def)
  qed
qed

text \<open>
  The theorem at the transport of the tests, with the failing cache of the first call of
  \<^verbatim>\<open>TestPwnedCacheWithError\<close> and without a cache.
\<close>

theorem Check_populates_cache_witness:
  "fst (Check test_env
      (test_client (Some (test_cache (False, None) (Some (External ''context canceled''))))
         (test_transport 200 test_body))
      None ''password1'' test_state) = CheckReturn False (Some (External ''context canceled''))
   \<and> trace (snd (snd (Check test_env
      (test_client (Some (test_cache (False, None) (Some (External ''context canceled''))))
         (test_transport 200 test_body))
      None ''password1'' test_state))) =
       [CallContains Background ''E38AD'' ''214943DAAD1D64C102FAEC29DE4AFE9DA3D'',
        CallDo (range_request
          (test_client (Some (test_cache (False, None) (Some (External ''context canceled''))))
             (test_transport 200 test_body)) Background ''E38AD''),
        CallAdd Background ''E38AD'' [''214943DAAD1D64C102FAEC29DE4AFE9DA3D'']]
   \<and> fst (Check test_env (test_client None (test_transport 200 test_body))
      None ''password1'' test_state) = CheckReturn True None
   \<and> trace (snd (snd (Check test_env (test_client None (test_transport 200 test_body))
      None ''password1'' test_state))) =
       [CallDo (range_request (test_client None (test_transport 200 test_body))
          Background ''E38AD'')]"
proof -
  let ?cache = "test_cache (False, None) (Some (External ''context canceled''))"
  let ?cached = "test_client (Some ?cache) (test_transport 200 test_body)"
  let ?plain = "test_client None (test_transport 200 test_body)"
  let ?suffix = "''214943DAAD1D64C102FAEC29DE4AFE9DA3D''"
  let ?asked = "\<lparr>world = (), trace = [CallContains Background ''E38AD'' ?suffix],
      bufferPool = []\<rparr> :: unit state"
  let ?buf1 = "Parse \<lparr>Buffer = [] @ test_body, SuffixesSorted = False, Suffixes = []\<rparr>"
  have ctx: "Background = (case None :: context option of None \<Rightarrow> Background | Some cx \<Rightarrow> cx)"
    by simp
  have prefix: "''E38AD'' = take 5 (hexsum test_env ''password1'')"
    and suffix: "?suffix = drop 5 (hexsum test_env ''password1'')"
    by (simp_all add: test_hexsum)
  have url: "url_Parse test_env (PwnedPasswordsURL ''E38AD'') = None"
    by (rule test_env_sel)
  have code: "StatusCode (test_response 200 test_body) = 200"
    and rd: "body_read (Body (test_response 200 test_body)) = (test_body, None)"
    by (simp_all add: test_response_def)
  have miss_a: "Cache ?cached = None \<longrightarrow> ?asked = test_state"
    by (simp add: test_client_def)
  have miss_b: "\<forall>cache. Cache ?cached = Some cache \<longrightarrow>
      call_Contains cache Background ''E38AD'' ?suffix test_state = ((False, None), ?asked)"
    by (auto simp: test_client_def test_cache_def call_Contains_def test_state_def)
  have fresh: "requests ?cached ''E38AD'' = None"
    and pool: "bufferPool_Get ?asked = ([], ?asked)"
    and do: "(case HTTP ?cached of None \<Rightarrow> DefaultClient test_env | Some h \<Rightarrow> h)
      (range_request ?cached Background ''E38AD'') (world ?asked) =
      ((Some (test_response 200 test_body), None), ())"
    by (simp_all add: test_client_def test_transport_def bufferPool_Get_def)
  have add: "Cache ?cached = Some ?cache \<and> Suffixes ?buf1 \<noteq> [] \<and>
      Add ?cache Background ''E38AD'' (Suffixes ?buf1) () = (Some (External ''context canceled''), ())"
    by (simp add: test_Parse_body test_client_def test_cache_def)
  have plain_a: "Cache ?plain = None \<longrightarrow> test_state = test_state"
    by simp
  have plain_b: "\<forall>cache. Cache ?plain = Some cache \<longrightarrow>
      call_Contains cache Background ''E38AD'' ?suffix test_state = ((False, None), test_state)"
    by (simp add: test_client_def)
  have plain_fresh: "requests ?plain ''E38AD'' = None"
    and plain_pool: "bufferPool_Get test_state = ([], test_state)"
    and plain_do: "(case HTTP ?plain of None \<Rightarrow> DefaultClient test_env | Some h \<Rightarrow> h)
      (range_request ?plain Background ''E38AD'') (world test_state) =
      ((Some (test_response 200 test_body), None), ())"
    and none: "Cache ?plain = None"
    by (simp_all add: test_client_def test_transport_def bufferPool_Get_def test_state_def)
  note cached = Check_populates_cache [OF ctx prefix suffix miss_a miss_b fresh pool url do code rd refl,
      THEN conjunct2, rule_format, OF add]
  note plain = Check_populates_cache [OF ctx prefix suffix plain_a plain_b plain_fresh plain_pool url
      plain_do code rd refl, THEN conjunct1, rule_format, OF disjI1, OF none]
  from cached plain show ?thesis
    by (simp add: test_Parse_body test_Lookup_body test_state_def)
qed

text \<open>
  Claim C10. For every call of \<^verbatim>\<open>Check\<close> with a cache, if \<^verbatim>\<open>Cache.Contains\<close> returns
  \<^verbatim>\<open>(b, e)\<close> with \<^verbatim>\<open>e\<close> not nil, \<^verbatim>\<open>Check\<close> returns exactly \<^verbatim>\<open>(b, e)\<close>: the boolean is the
  cache's, it is not forced to \<^verbatim>\<open>false\<close>.
\<close>

theorem Check_cache_error_mirrors_bool:
  fixes env :: "'w env" and c :: "'w PwnedClient"
  assumes "Cache c = Some cache"
    and "Contains cache (case ctx0 of None \<Rightarrow> Background | Some cx \<Rightarrow> cx)
           (take 5 (hexsum env password)) (drop 5 (hexsum env password)) (world st) = ((b, Some e), w)"
  shows "fst (Check env c ctx0 password st) = CheckReturn b (Some e)"
  using assms by (simp add: Check_def call_Contains_def Let_def)

text \<open>The theorem at a cache that returns \<^verbatim>\<open>true\<close> together with an error.\<close>

theorem Check_cache_error_mirrors_bool_witness:
  "fst (Check test_env
      (test_client (Some (test_cache (True, Some (External ''context canceled'')) None))
         (test_transport 200 test_body))
      None ''password1'' test_state) = CheckReturn True (Some (External ''context canceled''))"
  using Check_cache_error_mirrors_bool [of
      "test_client (Some (test_cache (True, Some (External ''context canceled'')) None))
         (test_transport 200 test_body)"
      "test_cache (True, Some (External ''context canceled'')) None"
      None test_env "''password1''" test_state True "External ''context canceled''" "()"]
  by (simp add: test_client_def test_cache_def)



end
